theory Spec2Isabelle
  imports Main "HOL-Library.Word"
begin

unbundle bit_operations_syntax

section \<open>Machine integers\<close>

text \<open>
  Go's fixed-width unsigned integers are words: \<open>+\<close> and \<open>-\<close> wrap around.  A Go shift
  whose count reaches the width of the operand yields 0; \<open>push_bit\<close> and \<open>drop_bit\<close>
  on words do the same.  Shift counts in the source are \<open>uint8\<close> expressions, so the
  subtraction \<open>32 - n\<close> that computes them wraps modulo 256 before the shift happens.
\<close>

type_synonym uint8 = "8 word"
type_synonym uint16 = "16 word"
type_synonym uint32 = "32 word"
type_synonym uint64 = "64 word"

definition shl32 :: "uint32 \<Rightarrow> uint8 \<Rightarrow> uint32" where
  "shl32 x s = push_bit (unat s) x"

definition shr32 :: "uint32 \<Rightarrow> uint8 \<Rightarrow> uint32" where
  "shr32 x s = drop_bit (unat s) x"

section \<open>Package net: IPv4 prefixes\<close>

record Prefix =
  addr :: uint32
  pfxlen :: uint8

definition NewPfx :: "uint32 \<Rightarrow> uint8 \<Rightarrow> Prefix" where
  "NewPfx a n = \<lparr>addr = a, pfxlen = n\<rparr>"

text \<open>\<open>Prefix.Contains\<close>: the value called \<open>mask\<close> is \<open>uint32(1) << (32 - pfx.pfxlen)\<close>.\<close>

definition Contains :: "Prefix \<Rightarrow> Prefix \<Rightarrow> bool" where
  "Contains pfx x =
     (if pfxlen x \<le> pfxlen pfx then False
      else (let mask = shl32 1 (32 - pfxlen pfx)
            in (addr pfx AND mask) = (addr x AND mask)))"

definition Equal :: "Prefix \<Rightarrow> Prefix \<Rightarrow> bool" where
  "Equal pfx x = (pfx = x)"

definition min_u8 :: "uint8 \<Rightarrow> uint8 \<Rightarrow> uint8" where
  "min_u8 a b = (if a < b then a else b)"

text \<open>
  The loop of \<open>GetSupernet\<close>: \<open>for i := 0; a != b; i++ { a = a >> 1; b = b >> 1; maxPfxLen-- }\<close>.
  The counter \<open>i\<close> is not used.  The loop ends because every round halves two values that
  differ, so one of them is not zero.
\<close>

function GetSupernet_loop :: "uint32 \<Rightarrow> uint32 \<Rightarrow> uint8 \<Rightarrow> uint32 \<times> uint8" where
  "GetSupernet_loop a b maxPfxLen =
     (if a \<noteq> b then GetSupernet_loop (drop_bit 1 a) (drop_bit 1 b) (maxPfxLen - 1)
      else (a, maxPfxLen))"
  by pat_completeness auto

lemma unat_drop_bit1_le: "unat (drop_bit 1 (w :: uint32)) \<le> unat w"
  by (simp add: drop_bit_eq_div unat_div)

lemma unat_drop_bit1_less: "(w :: uint32) \<noteq> 0 \<Longrightarrow> unat (drop_bit 1 w) < unat w"
proof -
  assume "w \<noteq> 0"
  then have "0 < unat w" by (simp add: unat_gt_0)
  then show ?thesis by (simp add: drop_bit_eq_div unat_div)
qed

termination GetSupernet_loop
proof (relation "measure (\<lambda>(a, b, n). unat a + unat b)")
  show "wf (measure (\<lambda>(a :: uint32, b :: uint32, n :: uint8). unat a + unat b))"
    by simp
next
  fix a b :: uint32 and maxPfxLen :: uint8
  assume ne: "a \<noteq> b"
  then have "a \<noteq> 0 \<or> b \<noteq> 0" by auto
  then have "unat (drop_bit 1 a) + unat (drop_bit 1 b) < unat a + unat b"
    using unat_drop_bit1_le [of a] unat_drop_bit1_le [of b]
      unat_drop_bit1_less [of a] unat_drop_bit1_less [of b]
    by fastforce
  then show "((drop_bit 1 a, drop_bit 1 b, maxPfxLen - 1), (a, b, maxPfxLen))
      \<in> measure (\<lambda>(a, b, n). unat a + unat b)"
    by simp
qed

declare GetSupernet_loop.simps [simp del]

definition GetSupernet :: "Prefix \<Rightarrow> Prefix \<Rightarrow> Prefix" where
  "GetSupernet pfx x =
     (let maxPfxLen = min_u8 (pfxlen pfx) (pfxlen x) - 1;
          a = shr32 (addr pfx) (32 - maxPfxLen);
          b = shr32 (addr x) (32 - maxPfxLen);
          r = GetSupernet_loop a b maxPfxLen
      in \<lparr>addr = shl32 (fst r) (32 - snd r), pfxlen = snd r\<rparr>)"

text \<open>
  The containment the specification describes, in its own words: \<open>x.pfxlen > self.pfxlen\<close>
  and the top \<open>self.pfxlen\<close> bits of both addresses are equal.  The top \<open>n\<close> bits of a 32-bit
  address are what is left after dropping the low \<open>32 - n\<close> bits.
\<close>

definition top_bits :: "nat \<Rightarrow> uint32 \<Rightarrow> uint32" where
  "top_bits n a = drop_bit (32 - n) a"

definition contains_spec :: "Prefix \<Rightarrow> Prefix \<Rightarrow> bool" where
  "contains_spec self x =
     (pfxlen self < pfxlen x \<and>
      top_bits (unat (pfxlen self)) (addr x) = top_bits (unat (pfxlen self)) (addr self))"

section \<open>Package lpm: the trie\<close>

text \<open>
  A \<open>*node\<close> is either the nil pointer or a node with its five fields.  Every node of the
  trie is referenced from one place only (its parent or the root), so the in-place updates
  of the source are rebuilt values here.
\<close>

datatype node = nil | Node (skip: uint8) (dummy: bool) (pfx: Prefix) (l: node) (h: node)

record LPM =
  root :: node
  nodes :: uint64

definition New :: LPM where
  "New = \<lparr>root = nil, nodes = 0\<rparr>"

definition newNode :: "Prefix \<Rightarrow> uint8 \<Rightarrow> bool \<Rightarrow> node" where
  "newNode p s d = Node s d p nil nil"

definition getBitUint32 :: "uint32 \<Rightarrow> uint8 \<Rightarrow> bool" where
  "getBitUint32 x pos = ((x AND shl32 1 (32 - pos)) \<noteq> 0)"

text \<open>\<open>node.lpm\<close> appends to the slice behind \<open>res\<close>; the model returns the extended list.\<close>

fun lpm :: "node \<Rightarrow> Prefix \<Rightarrow> Prefix list \<Rightarrow> Prefix list" where
  "lpm nil needle res = res"
| "lpm (Node s d p lo hi) needle res =
     (if p = needle \<and> \<not> d then res @ [p]
      else if \<not> Contains p needle then res
      else lpm hi needle (lpm lo needle (if \<not> d then res @ [p] else res)))"

text \<open>\<open>node.dumpPfxs\<close>: a nil receiver returns nil whatever \<open>res\<close> holds; nil children are skipped.\<close>

fun dumpPfxs :: "node \<Rightarrow> Prefix list \<Rightarrow> Prefix list" where
  "dumpPfxs nil res = []"
| "dumpPfxs (Node s d p lo hi) res =
     (let res1 = (if \<not> d then res @ [p] else res);
          res2 = (if lo \<noteq> nil then dumpPfxs lo res1 else res1)
      in if hi \<noteq> nil then dumpPfxs hi res2 else res2)"

fun get :: "node \<Rightarrow> Prefix \<Rightarrow> node" where
  "get nil p = nil"
| "get (Node s d q lo hi) p =
     (if q = p then (if d then nil else Node s d q lo hi)
      else if pfxlen q > pfxlen p then nil
      else if \<not> getBitUint32 (addr p) (pfxlen q + 1) then get lo p
      else get hi p)"

text \<open>
  \<open>insertChildren\<close> is called on the fresh pseudo node: it hangs the old node, with its
  \<open>skip\<close> recomputed, and then a new leaf for the new prefix; the second assignment
  overwrites the first when both land in the same slot.
\<close>

definition set_skip :: "uint8 \<Rightarrow> node \<Rightarrow> node" where
  "set_skip s n = (case n of nil \<Rightarrow> nil | Node _ d p lo hi \<Rightarrow> Node s d p lo hi)"

definition insertChildren :: "node \<Rightarrow> node \<Rightarrow> Prefix \<Rightarrow> node" where
  "insertChildren n old new =
     (let old' = set_skip (pfxlen (pfx old) - pfxlen (pfx n) - 1) old;
          n1 = (if \<not> getBitUint32 (addr (pfx old)) (pfxlen (pfx n) + 1)
                then Node (skip n) (dummy n) (pfx n) old' (h n)
                else Node (skip n) (dummy n) (pfx n) (l n) old');
          newNode' = newNode new (pfxlen new - pfxlen (pfx n) - 1) False
      in if \<not> getBitUint32 (addr new) (pfxlen (pfx n) + 1)
         then Node (skip n1) (dummy n1) (pfx n1) newNode' (h n1)
         else Node (skip n1) (dummy n1) (pfx n1) (l n1) newNode')"

definition newSuperNode :: "node \<Rightarrow> Prefix \<Rightarrow> node" where
  "newSuperNode n p =
     (let superNet = GetSupernet p (pfx n);
          pfxLenDiff = pfxlen (pfx n) - pfxlen superNet;
          skip' = skip n - pfxLenDiff;
          pseudoNode = newNode superNet skip' True
      in insertChildren pseudoNode n p)"

definition insertBefore :: "node \<Rightarrow> Prefix \<Rightarrow> uint8 \<Rightarrow> node" where
  "insertBefore n p parentPfxLen =
     (let pfxLenDiff = pfxlen (pfx n) - pfxlen p;
          skip' = skip n - pfxLenDiff;
          tmp' = set_skip (pfxlen (pfx n) - pfxlen p - 1) n
      in if \<not> getBitUint32 (addr p) parentPfxLen
         then Node skip' False p tmp' nil
         else Node skip' False p nil tmp')"

text \<open>
  \<open>node.insert\<close>, \<open>insertLow\<close> and \<open>insertHigh\<close> call each other.  The source calls them
  on a receiver that is not nil only (\<open>LPM.Insert\<close>, \<open>insertLow\<close> and \<open>insertHigh\<close> test
  for nil before they call \<open>insert\<close>), so the equations for \<open>nil\<close> are never reached from
  \<open>Insert\<close>.
\<close>

fun insert :: "node \<Rightarrow> Prefix \<Rightarrow> node"
  and insertLow :: "node \<Rightarrow> Prefix \<Rightarrow> uint8 \<Rightarrow> node"
  and insertHigh :: "node \<Rightarrow> Prefix \<Rightarrow> uint8 \<Rightarrow> node" where
  "insert nil p = nil"
| "insert (Node s d q lo hi) p =
     (if q = p then Node s d q lo hi
      else if \<not> Contains q p then
        (if Contains p q then insertBefore (Node s d q lo hi) p (pfxlen q - s - 1)
         else newSuperNode (Node s d q lo hi) p)
      else if \<not> getBitUint32 (addr p) (pfxlen q + 1)
      then insertLow (Node s d q lo hi) p (pfxlen q)
      else insertHigh (Node s d q lo hi) p (pfxlen q))"
| "insertLow nil p parentPfxLen = nil"
| "insertLow (Node s d q lo hi) p parentPfxLen =
     (if lo = nil then Node s d q (newNode p (pfxlen p - parentPfxLen - 1) False) hi
      else Node s d q (insert lo p) hi)"
| "insertHigh nil p parentPfxLen = nil"
| "insertHigh (Node s d q lo hi) p parentPfxLen =
     (if hi = nil then Node s d q lo (newNode p (pfxlen p - parentPfxLen - 1) False)
      else Node s d q lo (insert hi p))"

definition Insert :: "LPM \<Rightarrow> Prefix \<Rightarrow> LPM" where
  "Insert t p =
     (if root t = nil then t\<lparr>root := newNode p (pfxlen p) False\<rparr>
      else t\<lparr>root := insert (root t) p\<rparr>)"

text \<open>The method \<open>LPM.LPM\<close> is \<open>LPM_query\<close> here, \<open>LPM\<close> being the name of the type.\<close>

definition LPM_query :: "LPM \<Rightarrow> Prefix \<Rightarrow> Prefix list" where
  "LPM_query t p = (if root t = nil then [] else lpm (root t) p [])"

definition Get :: "LPM \<Rightarrow> Prefix \<Rightarrow> bool \<Rightarrow> Prefix list" where
  "Get t p moreSpecifics =
     (if root t = nil then []
      else (let node = get (root t) p
            in if moreSpecifics then dumpPfxs node []
               else if node = nil then [] else [pfx node]))"

text \<open>
  The words of the specification for the trie, to state properties with.  Pre-order is
  ``root, low-subtree, high-subtree'', and only real (non-dummy) prefixes are listed.  The
  node invariant is the one of the data model: a node's prefix contains the prefix of each
  child that is present, and the decision bit of each child (bit \<open>pfxlen + 1\<close> of the
  child's address) matches its slot, 0 for \<open>low\<close> and 1 for \<open>high\<close>.
\<close>

fun preorder :: "node \<Rightarrow> Prefix list" where
  "preorder nil = []"
| "preorder (Node s d p lo hi) = (if d then [] else [p]) @ preorder lo @ preorder hi"

definition child_ok :: "Prefix \<Rightarrow> bool \<Rightarrow> node \<Rightarrow> bool" where
  "child_ok p b c =
     (case c of nil \<Rightarrow> True
      | Node _ _ q _ _ \<Rightarrow> contains_spec p q \<and> getBitUint32 (addr q) (pfxlen p + 1) = b)"

fun invar :: "node \<Rightarrow> bool" where
  "invar nil = True"
| "invar (Node s d p lo hi) =
     (child_ok p False lo \<and> child_ok p True hi \<and> invar lo \<and> invar hi)"

section \<open>Package packet: the decoder\<close>

subsection \<open>Constants and message types\<close>

abbreviation OctetLen :: nat where "OctetLen \<equiv> 8"
abbreviation IPv4len :: nat where "IPv4len \<equiv> 4"
abbreviation MarkerLen :: nat where "MarkerLen \<equiv> 16"
abbreviation MinLen :: uint16 where "MinLen \<equiv> 19"
abbreviation MaxLen :: uint16 where "MaxLen \<equiv> 4096"

abbreviation OpenMsg :: uint8 where "OpenMsg \<equiv> 1"
abbreviation UpdateMsg :: uint8 where "UpdateMsg \<equiv> 2"
abbreviation NotificationMsg :: uint8 where "NotificationMsg \<equiv> 3"
abbreviation KeepaliveMsg :: uint8 where "KeepaliveMsg \<equiv> 4"

abbreviation MessageHeaderError :: uint8 where "MessageHeaderError \<equiv> 1"
abbreviation OpenMessageError :: uint8 where "OpenMessageError \<equiv> 2"
abbreviation UpdateMessageError :: uint8 where "UpdateMessageError \<equiv> 3"
abbreviation HoldTimeExpired :: uint8 where "HoldTimeExpired \<equiv> 4"
abbreviation FiniteStateMachineError :: uint8 where "FiniteStateMachineError \<equiv> 5"
abbreviation Cease :: uint8 where "Cease \<equiv> 6"

abbreviation ConnectionNotSync :: uint8 where "ConnectionNotSync \<equiv> 1"
abbreviation BadMessageLength :: uint8 where "BadMessageLength \<equiv> 2"
abbreviation BadMessageType :: uint8 where "BadMessageType \<equiv> 3"

abbreviation UnsupportedVersionNumber :: uint8 where "UnsupportedVersionNumber \<equiv> 1"
abbreviation BadBGPIdentifier :: uint8 where "BadBGPIdentifier \<equiv> 3"
abbreviation DeprecatedOpenMsgError5 :: uint8 where "DeprecatedOpenMsgError5 \<equiv> 5"
abbreviation UnacceptableHoldTime :: uint8 where "UnacceptableHoldTime \<equiv> 6"

abbreviation DeprecatedUpdateMsgError7 :: uint8 where "DeprecatedUpdateMsgError7 \<equiv> 7"
abbreviation MalformedASPath :: uint8 where "MalformedASPath \<equiv> 11"

abbreviation OriginAttr :: uint8 where "OriginAttr \<equiv> 1"
abbreviation ASPathAttr :: uint8 where "ASPathAttr \<equiv> 2"
abbreviation NextHopAttr :: uint8 where "NextHopAttr \<equiv> 3"
abbreviation MEDAttr :: uint8 where "MEDAttr \<equiv> 4"
abbreviation LocalPrefAttr :: uint8 where "LocalPrefAttr \<equiv> 5"
abbreviation AtomicAggrAttr :: uint8 where "AtomicAggrAttr \<equiv> 6"
abbreviation AggregatorAttr :: uint8 where "AggregatorAttr \<equiv> 7"

abbreviation ASSet :: uint8 where "ASSet \<equiv> 1"
abbreviation ASSequence :: uint8 where "ASSequence \<equiv> 2"

abbreviation BGP4Version :: uint8 where "BGP4Version \<equiv> 4"

record BGPHeader =
  Length :: uint16
  Type :: uint8

record BGPOpen =
  Version :: uint8
  AS :: uint16
  HoldTime :: uint16
  BGPIdentifier :: uint32
  OptParmLen :: uint8

record BGPNotification =
  ErrorCode :: uint8
  ErrorSubcode :: uint8

text \<open>
  An \<open>NLRI\<close> holds its address as \<open>[4]byte\<close>, here a list of four bytes; the \<open>Next\<close>
  pointers of the source chain the values into a list in wire order, here a HOL list.  The
  same holds for path attributes.  In \<open>PathAttribute\<close> the field \<open>Length\<close> of the source
  is \<open>AttrLength\<close>, since the header has a field of that name.
\<close>

record NLRI =
  IP :: "uint8 list"
  Pfxlen :: uint8

datatype ASPathSegment = ASPathSegment uint8 uint8 "uint32 list"

datatype Aggretator = Aggretator "uint8 list" uint16

datatype attr_value =
    NoValue
  | OriginValue uint8
  | ASPathValue "ASPathSegment list"
  | NextHopValue "uint8 list"
  | Uint32Value uint32
  | AggregatorValue Aggretator

record PathAttribute =
  AttrLength :: uint16
  Optional :: bool
  Transitive :: bool
  Partial :: bool
  ExtendedLength :: bool
  TypeCode :: uint8
  Value :: attr_value

record BGPUpdate =
  WithdrawnRoutesLen :: uint16
  WithdrawnRoutes :: "NLRI list"
  TotalPathAttrLen :: uint16
  PathAttributes :: "PathAttribute list"
  NLRIs :: "NLRI list"

datatype body = NoBody | OpenBody BGPOpen | UpdateBody BGPUpdate | NotificationBody BGPNotification

record BGPMessage =
  Header :: BGPHeader
  Body :: body

subsection \<open>Errors and the buffer\<close>

text \<open>
  An error of the decoder is either a \<open>packet.BGPError\<close> with its error code and subcode,
  or any other error value (\<open>fmt.Errorf\<close>, \<open>io.EOF\<close>).  The message texts are for the
  log and are left out.  \<open>Panic\<close> is not an error value: it stands for a run-time panic of
  the Go program, which no caller of the decoder recovers from.

  A \<open>bytes.Buffer\<close> is the list of its unread bytes.  Every function that reads from it
  returns the bytes that are left next to its result, also when it fails:
  \<open>binary.Read\<close> goes through \<open>io.ReadFull\<close>, which consumes what is there before it
  reports a short read.
\<close>

datatype error = BGPError uint8 uint8 | OtherError | Panic

type_synonym buffer = "uint8 list"

type_synonym 'a dec = "(error + 'a) \<times> buffer"

definition readFull :: "nat \<Rightarrow> buffer \<Rightarrow> (uint8 list) dec" where
  "readFull n buf =
     (if n \<le> length buf then (Inr (take n buf), drop n buf) else (Inl OtherError, []))"

text \<open>
  \<open>bytes.Buffer.Read\<close> into a slice of \<open>n\<close> bytes: \<open>io.EOF\<close> on an empty buffer,
  otherwise as many bytes as there are, at most \<open>n\<close>.
\<close>

definition buf_Read :: "nat \<Rightarrow> buffer \<Rightarrow> (uint8 list) dec" where
  "buf_Read n buf =
     (if buf = [] \<and> n \<noteq> 0 then (Inl OtherError, []) else (Inr (take n buf), drop n buf))"

text \<open>\<open>decode\<close> of one field (\<open>binary.Read\<close>, big-endian), for the three widths in use.\<close>

definition decode_u8 :: "buffer \<Rightarrow> uint8 dec" where
  "decode_u8 buf = (case buf of x # r \<Rightarrow> (Inr x, r) | _ \<Rightarrow> (Inl OtherError, []))"

definition be16 :: "uint8 \<Rightarrow> uint8 \<Rightarrow> uint16" where
  "be16 a b = push_bit 8 (ucast a) OR ucast b"

definition be32 :: "uint8 \<Rightarrow> uint8 \<Rightarrow> uint8 \<Rightarrow> uint8 \<Rightarrow> uint32" where
  "be32 a b c d =
     push_bit 24 (ucast a) OR push_bit 16 (ucast b) OR push_bit 8 (ucast c) OR ucast d"

definition decode_u16 :: "buffer \<Rightarrow> uint16 dec" where
  "decode_u16 buf = (case buf of a # b # r \<Rightarrow> (Inr (be16 a b), r) | _ \<Rightarrow> (Inl OtherError, []))"

definition decode_u32 :: "buffer \<Rightarrow> uint32 dec" where
  "decode_u32 buf =
     (case buf of a # b # c # d # r \<Rightarrow> (Inr (be32 a b c d), r) | _ \<Rightarrow> (Inl OtherError, []))"

text \<open>An error that \<open>fmt.Errorf\<close> wraps into a new message is no \<open>BGPError\<close> any more.\<close>

definition Errorf :: "error \<Rightarrow> error" where
  "Errorf e = (if e = Panic then Panic else OtherError)"

subsection \<open>The header\<close>

definition decodeHeader :: "buffer \<Rightarrow> BGPHeader dec" where
  "decodeHeader buf =
     (case buf_Read MarkerLen buf of
        (Inl e, b) \<Rightarrow> (Inl (BGPError Cease 0), b)
      | (Inr marker, b) \<Rightarrow>
          if length marker \<noteq> MarkerLen then (Inl (BGPError Cease 0), b)
          else if \<exists>x \<in> set marker. x \<noteq> 255
          then (Inl (BGPError MessageHeaderError ConnectionNotSync), b)
          else (case decode_u16 b of
                  (Inl e, b1) \<Rightarrow> (Inl (BGPError Cease 0), b1)
                | (Inr len, b1) \<Rightarrow>
                    (case decode_u8 b1 of
                       (Inl e, b2) \<Rightarrow> (Inl (BGPError Cease 0), b2)
                     | (Inr ty, b2) \<Rightarrow>
                         if len < MinLen \<or> len > MaxLen
                         then (Inl (BGPError MessageHeaderError BadMessageLength), b2)
                         else if ty > KeepaliveMsg \<or> ty = 0
                         then (Inl (BGPError MessageHeaderError BadMessageType), b2)
                         else (Inr \<lparr>Length = len, Type = ty\<rparr>, b2))))"

subsection \<open>NOTIFICATION\<close>

definition decodeNotificationMsg :: "buffer \<Rightarrow> BGPNotification dec" where
  "decodeNotificationMsg buf =
     (case decode_u8 buf of
        (Inl e, b) \<Rightarrow> (Inl e, b)
      | (Inr code, b1) \<Rightarrow>
          (case decode_u8 b1 of
             (Inl e, b) \<Rightarrow> (Inl e, b)
           | (Inr sub, b2) \<Rightarrow>
               if code > Cease then (Inl OtherError, b2)
               else if code = MessageHeaderError then
                 (if sub > BadMessageType \<or> sub = 0 then (Inl OtherError, b2)
                  else (Inr \<lparr>ErrorCode = code, ErrorSubcode = sub\<rparr>, b2))
               else if code = OpenMessageError then
                 (if sub > UnacceptableHoldTime \<or> sub = 0 \<or> sub = DeprecatedOpenMsgError5
                  then (Inl OtherError, b2)
                  else (Inr \<lparr>ErrorCode = code, ErrorSubcode = sub\<rparr>, b2))
               else if code = UpdateMessageError then
                 (if sub > MalformedASPath \<or> sub = 0 \<or> sub = DeprecatedUpdateMsgError7
                  then (Inl OtherError, b2)
                  else (Inr \<lparr>ErrorCode = code, ErrorSubcode = sub\<rparr>, b2))
               else if code = HoldTimeExpired then
                 (if sub \<noteq> 0 then (Inl OtherError, b2)
                  else (Inr \<lparr>ErrorCode = code, ErrorSubcode = sub\<rparr>, b2))
               else if code = FiniteStateMachineError then
                 (if sub \<noteq> 0 then (Inl OtherError, b2)
                  else (Inr \<lparr>ErrorCode = code, ErrorSubcode = sub\<rparr>, b2))
               else if code = Cease then
                 (if sub \<noteq> 0 then (Inl OtherError, b2)
                  else (Inr \<lparr>ErrorCode = code, ErrorSubcode = sub\<rparr>, b2))
               else (Inl OtherError, b2)))"

text \<open>
  The validity table of the specification for NOTIFICATION, in its own words: code 1
  permits subcodes 1 to 3; code 2 permits 1 to 6 except 5; code 3 permits 1 to 11 except 7;
  codes 4, 5 and 6 permit subcode 0 only.
\<close>

definition notification_valid :: "uint8 \<Rightarrow> uint8 \<Rightarrow> bool" where
  "notification_valid code sub =
     (if code = 1 then 1 \<le> sub \<and> sub \<le> 3
      else if code = 2 then 1 \<le> sub \<and> sub \<le> 6 \<and> sub \<noteq> 5
      else if code = 3 then 1 \<le> sub \<and> sub \<le> 11 \<and> sub \<noteq> 7
      else if code = 4 \<or> code = 5 \<or> code = 6 then sub = 0
      else False)"

subsection \<open>OPEN\<close>

text \<open>
  Modelled from the spec: \<open>convert.Uint32Byte\<close> belongs to the external package
  \<open>tflow2/convert\<close>; the specification says that all multi-byte fields are big-endian.
  \<open>net.IP.IsLoopback\<close> and \<open>net.IP.IsMulticast\<close> of the Go library test, for a four-byte
  address, the first byte for 127 and its high nibble for 0xE.
\<close>

definition Uint32Byte :: "uint32 \<Rightarrow> uint8 list" where
  "Uint32Byte x = [ucast (drop_bit 24 x), ucast (drop_bit 16 x), ucast (drop_bit 8 x), ucast x]"

definition isValidIdentifier :: "uint32 \<Rightarrow> bool" where
  "isValidIdentifier ident =
     (let a = Uint32Byte ident
      in if a ! 0 = 127 then False
         else if (a ! 0) AND 0xF0 = 0xE0 then False
         else if a ! 0 = 0 then False
         else if a ! 0 = 255 \<and> a ! 1 = 255 \<and> a ! 2 = 255 \<and> a ! 3 = 255 then False
         else True)"

definition validateOpen :: "BGPOpen \<Rightarrow> error option" where
  "validateOpen msg =
     (if Version msg \<noteq> BGP4Version then Some (BGPError OpenMessageError UnsupportedVersionNumber)
      else if \<not> isValidIdentifier (BGPIdentifier msg)
      then Some (BGPError OpenMessageError BadBGPIdentifier)
      else None)"

text \<open>
  \<open>_decodeOpenMsg\<close> returns \<open>(msg, err)\<close> with a nil \<open>msg\<close> when \<open>validateOpen\<close>
  fails; the result is \<open>None\<close> for that nil interface value.
\<close>

definition decodeOpenMsg' :: "buffer \<Rightarrow> (BGPOpen option \<times> error option) \<times> buffer" where
  "decodeOpenMsg' buf =
     (case decode_u8 buf of
        (Inl e, b) \<Rightarrow> ((Some \<lparr>Version = 0, AS = 0, HoldTime = 0, BGPIdentifier = 0, OptParmLen = 0\<rparr>, Some e), b)
      | (Inr v, b1) \<Rightarrow>
     (case decode_u16 b1 of
        (Inl e, b) \<Rightarrow> ((Some \<lparr>Version = v, AS = 0, HoldTime = 0, BGPIdentifier = 0, OptParmLen = 0\<rparr>, Some e), b)
      | (Inr a, b2) \<Rightarrow>
     (case decode_u16 b2 of
        (Inl e, b) \<Rightarrow> ((Some \<lparr>Version = v, AS = a, HoldTime = 0, BGPIdentifier = 0, OptParmLen = 0\<rparr>, Some e), b)
      | (Inr ht, b3) \<Rightarrow>
     (case decode_u32 b3 of
        (Inl e, b) \<Rightarrow> ((Some \<lparr>Version = v, AS = a, HoldTime = ht, BGPIdentifier = 0, OptParmLen = 0\<rparr>, Some e), b)
      | (Inr ident, b4) \<Rightarrow>
     (case decode_u8 b4 of
        (Inl e, b) \<Rightarrow> ((Some \<lparr>Version = v, AS = a, HoldTime = ht, BGPIdentifier = ident, OptParmLen = 0\<rparr>, Some e), b)
      | (Inr opl, b5) \<Rightarrow>
          (let msg = \<lparr>Version = v, AS = a, HoldTime = ht, BGPIdentifier = ident, OptParmLen = opl\<rparr>
           in case validateOpen msg of
                Some e \<Rightarrow> ((None, Some e), b5)
              | None \<Rightarrow> ((Some msg, None), b5)))))))"

text \<open>
  \<open>decodeOpenMsg\<close> is \<open>msg, err := _decodeOpenMsg(buf); return msg.(*BGPOpen), err\<close>:
  the type assertion on a nil interface value panics.
\<close>

definition decodeOpenMsg :: "buffer \<Rightarrow> BGPOpen dec" where
  "decodeOpenMsg buf =
     (case decodeOpenMsg' buf of
        ((None, _), b) \<Rightarrow> (Inl Panic, b)
      | ((Some msg, Some e), b) \<Rightarrow> (Inl e, b)
      | ((Some msg, None), b) \<Rightarrow> (Inr msg, b))"

subsection \<open>NLRI\<close>

text \<open>
  \<open>toCopy := uint8(math.Ceil(float64(nlri.Pfxlen) / float64(OctetLen)))\<close>: a byte divided
  by 8 is exact in floating point, so this is the rounded-up quotient.
\<close>

definition toCopy_of :: "uint8 \<Rightarrow> uint8" where
  "toCopy_of n = of_nat ((unat n + (OctetLen - 1)) div OctetLen)"

text \<open>
  The loop \<open>for i := uint8(0); i < net.IPv4len%OctetLen; i++\<close> of \<open>decodeNLRI\<close>; the bound
  is \<open>4 % 8 = 4\<close>.
\<close>

function copy_addr :: "nat \<Rightarrow> uint8 \<Rightarrow> uint8 list \<Rightarrow> buffer \<Rightarrow> (uint8 list) dec" where
  "copy_addr i toCopy a buf =
     (if i < IPv4len mod OctetLen then
        (if of_nat i < toCopy then
           (case decode_u8 buf of
              (Inl e, b) \<Rightarrow> (Inl e, b)
            | (Inr x, b) \<Rightarrow> copy_addr (i + 1) toCopy (a[i := x]) b)
         else copy_addr (i + 1) toCopy (a[i := 0]) buf)
      else (Inr a, buf))"
  by pat_completeness auto
termination
  by (relation "measure (\<lambda>(i, toCopy, a, buf). 4 - i)") auto

declare copy_addr.simps [simp del]

definition decodeNLRI :: "buffer \<Rightarrow> (NLRI \<times> uint8) dec" where
  "decodeNLRI buf =
     (case decode_u8 buf of
        (Inl e, b) \<Rightarrow> (Inl e, b)
      | (Inr n, b1) \<Rightarrow>
          (let toCopy = toCopy_of n
           in case copy_addr 0 toCopy [0, 0, 0, 0] b1 of
                (Inl e, b) \<Rightarrow> (Inl e, b)
              | (Inr a, b2) \<Rightarrow> (Inr (\<lparr>IP = a, Pfxlen = n\<rparr>, toCopy + 1), b2)))"

lemma decode_u8_shorter: "decode_u8 buf = (Inr x, b) \<Longrightarrow> length b < length buf"
  by (auto simp: decode_u8_def split: list.splits)

lemma decode_u16_shorter: "decode_u16 buf = (Inr x, b) \<Longrightarrow> length b < length buf"
  by (auto simp: decode_u16_def split: list.splits)

lemma decode_u32_shorter: "decode_u32 buf = (Inr x, b) \<Longrightarrow> length b < length buf"
  by (auto simp: decode_u32_def split: list.splits)

lemma copy_addr_not_longer: "copy_addr i toCopy a buf = (r, b) \<Longrightarrow> length b \<le> length buf"
proof (induction i toCopy a buf rule: copy_addr.induct)
  case (1 i toCopy a buf)
  show ?case
  proof (cases "i < IPv4len mod OctetLen")
    case False
    with "1.prems" show ?thesis by (simp add: copy_addr.simps)
  next
    case i: True
    show ?thesis
    proof (cases "of_nat i < toCopy")
      case False
      with i "1.prems" "1.IH"(2) show ?thesis by (simp add: copy_addr.simps)
    next
      case c: True
      show ?thesis
      proof (cases "decode_u8 buf")
        case (Pair res b1)
        show ?thesis
        proof (cases res)
          case (Inl e)
          with Pair i c "1.prems" show ?thesis
            by (auto simp: copy_addr.simps [of i] decode_u8_def split: list.splits)
        next
          case (Inr x)
          with Pair i c "1.prems" have "copy_addr (i + 1) toCopy (a[i := x]) b1 = (r, b)"
            by (simp add: copy_addr.simps [of i])
          from "1.IH"(1) [OF i c Pair [unfolded Inr, symmetric] refl this]
          have "length b \<le> length b1" .
          with decode_u8_shorter [OF Pair [unfolded Inr]] show ?thesis by simp
        qed
      qed
    qed
  qed
qed

lemma decodeNLRI_shorter: "decodeNLRI buf = (Inr x, b) \<Longrightarrow> length b < length buf"
  by (auto simp: decodeNLRI_def Let_def split: prod.splits sum.splits
      dest!: decode_u8_shorter copy_addr_not_longer)

text \<open>
  \<open>decodeNLRIs\<close>: \<open>for p < length\<close>, with \<open>p += uint16(consumed)\<close>; an error of
  \<open>decodeNLRI\<close> is wrapped by \<open>fmt.Errorf\<close>.  The loop ends because every round that
  succeeds takes at least the length byte from the buffer.
\<close>

function decodeNLRIs_loop :: "uint16 \<Rightarrow> uint16 \<Rightarrow> NLRI list \<Rightarrow> buffer \<Rightarrow> (NLRI list) dec" where
  "decodeNLRIs_loop len p ret buf =
     (if p < len then
        (case decodeNLRI buf of
           (Inl e, b) \<Rightarrow> (Inl (Errorf e), b)
         | (Inr (nlri, consumed), b) \<Rightarrow> decodeNLRIs_loop len (p + ucast consumed) (ret @ [nlri]) b)
      else (Inr ret, buf))"
  by pat_completeness auto
termination
  by (relation "measure (\<lambda>(len, p, ret, buf). length buf)")
    (auto dest: decodeNLRI_shorter [OF sym])

declare decodeNLRIs_loop.simps [simp del]

definition decodeNLRIs :: "buffer \<Rightarrow> uint16 \<Rightarrow> (NLRI list) dec" where
  "decodeNLRIs buf len = decodeNLRIs_loop len 0 [] buf"

subsection \<open>Path attributes\<close>

definition isOptional :: "uint8 \<Rightarrow> bool" where
  "isOptional x = (x AND 128 = 128)"

definition isTransitive :: "uint8 \<Rightarrow> bool" where
  "isTransitive x = (x AND 64 = 64)"

definition isPartial :: "uint8 \<Rightarrow> bool" where
  "isPartial x = (x AND 32 = 32)"

definition isExtendedLength :: "uint8 \<Rightarrow> bool" where
  "isExtendedLength x = (x AND 16 = 16)"

definition decodePathAttrFlags :: "buffer \<Rightarrow> PathAttribute \<Rightarrow> PathAttribute dec" where
  "decodePathAttrFlags buf pa =
     (case decode_u8 buf of
        (Inl e, b) \<Rightarrow> (Inl e, b)
      | (Inr flags, b) \<Rightarrow>
          (Inr (pa\<lparr>Optional := isOptional flags, Transitive := isTransitive flags,
                   Partial := isPartial flags, ExtendedLength := isExtendedLength flags\<rparr>), b))"

text \<open>\<open>setLength\<close> returns the number of bytes it read next to the updated attribute.\<close>

definition setLength :: "PathAttribute \<Rightarrow> buffer \<Rightarrow> (PathAttribute \<times> uint16) dec" where
  "setLength pa buf =
     (if ExtendedLength pa then
        (case decode_u16 buf of
           (Inl e, b) \<Rightarrow> (Inl e, b)
         | (Inr n, b) \<Rightarrow> (Inr (pa\<lparr>AttrLength := n\<rparr>, 2), b))
      else
        (case decode_u8 buf of
           (Inl e, b) \<Rightarrow> (Inl e, b)
         | (Inr x, b) \<Rightarrow> (Inr (pa\<lparr>AttrLength := ucast x\<rparr>, 1), b)))"

definition dumpNBytes :: "buffer \<Rightarrow> uint16 \<Rightarrow> unit dec" where
  "dumpNBytes buf n =
     (if n = 0 then (Inr (), buf)
      else (case readFull (unat n) buf of
              (Inl e, b) \<Rightarrow> (Inl e, b)
            | (Inr _, b) \<Rightarrow> (Inr (), b)))"

text \<open>
  \<open>decodeOrigin\<close>: its only caller drops the error, so the attribute and the buffer as
  they are when it returns are part of the result in every case.
\<close>

definition decodeOrigin :: "PathAttribute \<Rightarrow> buffer \<Rightarrow> error option \<times> PathAttribute \<times> buffer" where
  "decodeOrigin pa buf =
     (case decode_u8 buf of
        (Inl e, b) \<Rightarrow> (Some e, pa, b)
      | (Inr origin, b) \<Rightarrow>
          (let pa' = pa\<lparr>Value := OriginValue origin\<rparr>
           in case dumpNBytes b (AttrLength pa - 1) of
                (Inl e, b') \<Rightarrow> (Some e, pa', b')
              | (Inr _, b') \<Rightarrow> (None, pa', b')))"

definition decodeUint32 :: "PathAttribute \<Rightarrow> buffer \<Rightarrow> uint32 dec" where
  "decodeUint32 pa buf =
     (case decode_u32 buf of
        (Inl e, b) \<Rightarrow> (Inl e, b)
      | (Inr v, b) \<Rightarrow>
          (case dumpNBytes b (AttrLength pa - 4) of
             (Inl e, b') \<Rightarrow> (Inl (Errorf e), b')
           | (Inr _, b') \<Rightarrow> (Inr v, b')))"

definition decodeMED :: "PathAttribute \<Rightarrow> buffer \<Rightarrow> PathAttribute dec" where
  "decodeMED pa buf =
     (case decodeUint32 pa buf of
        (Inl e, b) \<Rightarrow> (Inl (Errorf e), b)
      | (Inr med, b) \<Rightarrow> (Inr (pa\<lparr>Value := Uint32Value med\<rparr>), b))"

definition decodeLocalPref :: "PathAttribute \<Rightarrow> buffer \<Rightarrow> PathAttribute dec" where
  "decodeLocalPref pa buf =
     (case decodeUint32 pa buf of
        (Inl e, b) \<Rightarrow> (Inl (Errorf e), b)
      | (Inr lpref, b) \<Rightarrow> (Inr (pa\<lparr>Value := Uint32Value lpref\<rparr>), b))"

definition decodeNextHop :: "PathAttribute \<Rightarrow> buffer \<Rightarrow> PathAttribute dec" where
  "decodeNextHop pa buf =
     (case buf_Read 4 buf of
        (Inl e, b) \<Rightarrow> (Inl e, b)
      | (Inr a, b) \<Rightarrow>
          if length a \<noteq> 4 then (Inl OtherError, b)
          else (case dumpNBytes b (AttrLength pa - 4) of
                  (Inl e, b') \<Rightarrow> (Inl e, b')
                | (Inr _, b') \<Rightarrow> (Inr (pa\<lparr>Value := NextHopValue a\<rparr>), b')))"

definition decodeAggregator :: "PathAttribute \<Rightarrow> buffer \<Rightarrow> PathAttribute dec" where
  "decodeAggregator pa buf =
     (case decode_u16 buf of
        (Inl e, b) \<Rightarrow> (Inl e, b)
      | (Inr asn, b1) \<Rightarrow>
          (case buf_Read 4 b1 of
             (Inl e, b) \<Rightarrow> (Inl e, b)
           | (Inr a, b2) \<Rightarrow>
               if length a \<noteq> 4 then (Inl OtherError, b2)
               else (case dumpNBytes b2 (AttrLength pa - 6) of
                       (Inl e, b') \<Rightarrow> (Inl e, b')
                     | (Inr _, b') \<Rightarrow>
                         (Inr (pa\<lparr>Value := AggregatorValue (Aggretator a asn)\<rparr>), b'))))"

text \<open>The inner loop of \<open>decodeASPath\<close> reads \<open>segment.Count\<close> AS numbers of two bytes.\<close>

fun decodeASNs :: "nat \<Rightarrow> uint16 \<Rightarrow> uint32 list \<Rightarrow> buffer \<Rightarrow> (uint32 list \<times> uint16) dec" where
  "decodeASNs 0 p asns buf = (Inr (asns, p), buf)"
| "decodeASNs (Suc k) p asns buf =
     (case decode_u16 buf of
        (Inl e, b) \<Rightarrow> (Inl e, b)
      | (Inr asn, b) \<Rightarrow> decodeASNs k (p + 2) (asns @ [ucast asn]) b)"

lemma decodeASNs_not_longer: "decodeASNs k p asns buf = (r, b) \<Longrightarrow> length b \<le> length buf"
proof (induction k arbitrary: p asns buf)
  case 0
  then show ?case by simp
next
  case (Suc k)
  then show ?case
    by (fastforce simp: decode_u16_def split: prod.splits sum.splits list.splits)
qed

function decodeASPath_loop ::
  "uint16 \<Rightarrow> uint16 \<Rightarrow> ASPathSegment list \<Rightarrow> buffer \<Rightarrow> (ASPathSegment list) dec" where
  "decodeASPath_loop len p segs buf =
     (if p < len then
        (case decode_u8 buf of
           (Inl e, b) \<Rightarrow> (Inl e, b)
         | (Inr ty, b1) \<Rightarrow>
             (case decode_u8 b1 of
                (Inl e, b) \<Rightarrow> (Inl e, b)
              | (Inr cnt, b2) \<Rightarrow>
                  if ty \<noteq> ASSet \<and> ty \<noteq> ASSequence then (Inl OtherError, b2)
                  else if cnt = 0 then (Inl OtherError, b2)
                  else (case decodeASNs (unat cnt) (p + 2) [] b2 of
                          (Inl e, b) \<Rightarrow> (Inl e, b)
                        | (Inr (asns, p'), b3) \<Rightarrow>
                            decodeASPath_loop len p' (segs @ [ASPathSegment ty cnt asns]) b3)))
      else (Inr segs, buf))"
  by pat_completeness auto
termination
proof (relation "measure (\<lambda>(len, p, segs, buf). length buf)", goal_cases)
  case 1
  show ?case by simp
next
  case (2 len p segs buf x b1 ty x' b2 cnt x'' b3 y asns p')
  then have "length b1 < length buf" "length b2 < length b1" "length b3 \<le> length b2"
    by (auto dest: decode_u8_shorter [OF sym] decodeASNs_not_longer [OF sym])
  then show ?case by simp
qed

declare decodeASPath_loop.simps [simp del]

definition decodeASPath :: "PathAttribute \<Rightarrow> buffer \<Rightarrow> PathAttribute dec" where
  "decodeASPath pa buf =
     (case decodeASPath_loop (AttrLength pa) 0 [] buf of
        (Inl e, b) \<Rightarrow> (Inl e, b)
      | (Inr segs, b) \<Rightarrow> (Inr (pa\<lparr>Value := ASPathValue segs\<rparr>), b))"

text \<open>
  One round of the loop of \<open>decodePathAttrs\<close>: flags, type code, length, value.  It takes
  the counter \<open>p\<close> and returns it advanced as the source advances it.
\<close>

definition decodePathAttr :: "uint16 \<Rightarrow> buffer \<Rightarrow> (PathAttribute \<times> uint16) dec" where
  "decodePathAttr p buf =
     (let pa0 = \<lparr>AttrLength = 0, Optional = False, Transitive = False, Partial = False,
                 ExtendedLength = False, TypeCode = 0, Value = NoValue\<rparr>
      in case decodePathAttrFlags buf pa0 of
           (Inl e, b) \<Rightarrow> (Inl (Errorf e), b)
         | (Inr pa1, b1) \<Rightarrow>
        (case decode_u8 b1 of
           (Inl e, b) \<Rightarrow> (Inl e, b)
         | (Inr tc, b2) \<Rightarrow>
        (case setLength (pa1\<lparr>TypeCode := tc\<rparr>) b2 of
           (Inl e, b) \<Rightarrow> (Inl e, b)
         | (Inr (pa2, n), b3) \<Rightarrow>
             (let p3 = p + 1 + 1 + n
              in if tc = OriginAttr then
                   (case decodeOrigin pa2 b3 of (_, pa3, b4) \<Rightarrow> (Inr (pa3, p3 + AttrLength pa3), b4))
                 else if tc = ASPathAttr then
                   (case decodeASPath pa2 b3 of
                      (Inl e, b) \<Rightarrow> (Inl (Errorf e), b)
                    | (Inr pa3, b4) \<Rightarrow> (Inr (pa3, p3 + AttrLength pa3), b4))
                 else if tc = NextHopAttr then
                   (case decodeNextHop pa2 b3 of
                      (Inl e, b) \<Rightarrow> (Inl (Errorf e), b)
                    | (Inr pa3, b4) \<Rightarrow> (Inr (pa3, p3 + AttrLength pa3), b4))
                 else if tc = MEDAttr then
                   (case decodeMED pa2 b3 of
                      (Inl e, b) \<Rightarrow> (Inl (Errorf e), b)
                    | (Inr pa3, b4) \<Rightarrow> (Inr (pa3, p3 + AttrLength pa3), b4))
                 else if tc = LocalPrefAttr then
                   (case decodeLocalPref pa2 b3 of
                      (Inl e, b) \<Rightarrow> (Inl (Errorf e), b)
                    | (Inr pa3, b4) \<Rightarrow> (Inr (pa3, p3 + AttrLength pa3), b4))
                 else if tc = AtomicAggrAttr then (Inr (pa2, p3 + AttrLength pa2), b3)
                 else if tc = AggregatorAttr then
                   (case decodeAggregator pa2 b3 of
                      (Inl e, b) \<Rightarrow> (Inl (Errorf e), b)
                    | (Inr pa3, b4) \<Rightarrow> (Inr (pa3, p3 + AttrLength pa3), b4))
                 else (Inl OtherError, b3)))))"

text \<open>No reader puts bytes back: what is left after a call is never longer than before.\<close>

lemma readFull_not_longer: "readFull n buf = (r, b) \<Longrightarrow> length b \<le> length buf"
  by (auto simp: readFull_def split: if_splits)

lemma buf_Read_not_longer: "buf_Read n buf = (r, b) \<Longrightarrow> length b \<le> length buf"
  by (auto simp: buf_Read_def split: if_splits)

lemma decode_u8_not_longer: "decode_u8 buf = (r, b) \<Longrightarrow> length b \<le> length buf"
  by (auto simp: decode_u8_def split: list.splits)

lemma decode_u16_not_longer: "decode_u16 buf = (r, b) \<Longrightarrow> length b \<le> length buf"
  by (auto simp: decode_u16_def split: list.splits)

lemma decode_u32_not_longer: "decode_u32 buf = (r, b) \<Longrightarrow> length b \<le> length buf"
  by (auto simp: decode_u32_def split: list.splits)

lemma dumpNBytes_not_longer: "dumpNBytes buf n = (r, b) \<Longrightarrow> length b \<le> length buf"
  by (auto simp: dumpNBytes_def split: if_splits prod.splits sum.splits
      dest: readFull_not_longer)

lemma setLength_not_longer: "setLength pa buf = (r, b) \<Longrightarrow> length b \<le> length buf"
  by (auto simp: setLength_def split: if_splits prod.splits sum.splits
      dest: decode_u8_not_longer decode_u16_not_longer)

lemma decodeOrigin_not_longer: "decodeOrigin pa buf = (e, pa', b) \<Longrightarrow> length b \<le> length buf"
  by (fastforce simp: decodeOrigin_def Let_def split: prod.splits sum.splits
      dest: decode_u8_not_longer dumpNBytes_not_longer)

lemma decodeUint32_not_longer: "decodeUint32 pa buf = (r, b) \<Longrightarrow> length b \<le> length buf"
  by (fastforce simp: decodeUint32_def split: prod.splits sum.splits
      dest: decode_u32_not_longer dumpNBytes_not_longer)

lemma decodeMED_not_longer: "decodeMED pa buf = (r, b) \<Longrightarrow> length b \<le> length buf"
  by (auto simp: decodeMED_def split: prod.splits sum.splits dest: decodeUint32_not_longer)

lemma decodeLocalPref_not_longer: "decodeLocalPref pa buf = (r, b) \<Longrightarrow> length b \<le> length buf"
  by (auto simp: decodeLocalPref_def split: prod.splits sum.splits dest: decodeUint32_not_longer)

lemma decodeNextHop_not_longer: "decodeNextHop pa buf = (r, b) \<Longrightarrow> length b \<le> length buf"
  by (fastforce simp: decodeNextHop_def split: prod.splits sum.splits if_splits
      dest: buf_Read_not_longer dumpNBytes_not_longer)

lemma decodeAggregator_not_longer: "decodeAggregator pa buf = (r, b) \<Longrightarrow> length b \<le> length buf"
proof -
  assume a: "decodeAggregator pa buf = (r, b)"
  have *: "\<And>x b1 y b2 z. decode_u16 buf = (x, b1) \<Longrightarrow> buf_Read 4 b1 = (y, b2) \<Longrightarrow>
      dumpNBytes b2 (AttrLength pa - 6) = (z, b) \<Longrightarrow> length b \<le> length buf"
    by (meson decode_u16_not_longer buf_Read_not_longer dumpNBytes_not_longer order_trans)
  have **: "\<And>x b1 y. decode_u16 buf = (x, b1) \<Longrightarrow> buf_Read 4 b1 = (y, b) \<Longrightarrow>
      length b \<le> length buf"
    by (meson decode_u16_not_longer buf_Read_not_longer order_trans)
  from a show ?thesis
    by (auto simp: decodeAggregator_def split: prod.splits sum.splits if_splits
        dest: decode_u16_not_longer * **)
qed

lemma decodeASPath_loop_not_longer:
  "decodeASPath_loop len p segs buf = (r, b) \<Longrightarrow> length b \<le> length buf"
proof (induction len p segs buf rule: decodeASPath_loop.induct)
  case (1 len p segs buf)
  show ?case
  proof (cases "p < len")
    case False
    with "1.prems" show ?thesis by (simp add: decodeASPath_loop.simps)
  next
    case True
    obtain r1 b1 where d1: "decode_u8 buf = (r1, b1)" by (cases "decode_u8 buf")
    obtain r2 b2 where d2: "decode_u8 b1 = (r2, b2)" by (cases "decode_u8 b1")
    have l1: "length b1 \<le> length buf" and l2: "length b2 \<le> length b1"
      using d1 d2 by (auto dest: decode_u8_not_longer)
    show ?thesis
    proof (cases r1)
      case (Inl e)
      with True d1 "1.prems" l1 show ?thesis by (simp add: decodeASPath_loop.simps [of len p])
    next
      case ty: (Inr ty)
      show ?thesis
      proof (cases r2)
        case (Inl e)
        with True d1 d2 ty "1.prems" l1 l2 show ?thesis
          by (simp add: decodeASPath_loop.simps [of len p])
      next
        case cnt: (Inr cnt)
        show ?thesis
        proof (cases "(ty \<noteq> ASSet \<and> ty \<noteq> ASSequence) \<or> cnt = 0")
          case True
          with \<open>p < len\<close> d1 d2 ty cnt "1.prems" l1 l2 show ?thesis
            by (auto simp add: decodeASPath_loop.simps [of len p] split: if_splits)
        next
          case ok: False
          obtain r3 b3 where d3: "decodeASNs (unat cnt) (p + 2) [] b2 = (r3, b3)"
            by (cases "decodeASNs (unat cnt) (p + 2) [] b2")
          have l3: "length b3 \<le> length b2" using d3 by (rule decodeASNs_not_longer)
          show ?thesis
          proof (cases r3)
            case (Inl e)
            with True d1 d2 d3 ty cnt ok "1.prems" l1 l2 l3 show ?thesis
              by (auto simp add: decodeASPath_loop.simps [of len p])
          next
            case (Inr y)
            obtain asns p' where y: "y = (asns, p')" by (cases y)
            from True d1 d2 d3 ty cnt ok Inr y "1.prems"
            have "decodeASPath_loop len p' (segs @ [ASPathSegment ty cnt asns]) b3 = (r, b)"
              by (auto simp add: decodeASPath_loop.simps [of len p])
            from "1.IH" [OF True d1 [unfolded ty, symmetric] refl d2 [unfolded cnt, symmetric] refl
                _ _ d3 [unfolded Inr y, symmetric] refl refl this] ok
            have "length b \<le> length b3" by auto
            with l1 l2 l3 show ?thesis by simp
          qed
        qed
      qed
    qed
  qed
qed

lemma decodeASPath_not_longer: "decodeASPath pa buf = (r, b) \<Longrightarrow> length b \<le> length buf"
  by (auto simp: decodeASPath_def split: prod.splits sum.splits
      dest: decodeASPath_loop_not_longer)

lemma decodePathAttr_shorter:
  assumes "decodePathAttr p buf = (Inr x, b)"
  shows "length b < length buf"
proof -
  let ?pa0 = "\<lparr>AttrLength = 0, Optional = False, Transitive = False, Partial = False,
                 ExtendedLength = False, TypeCode = 0, Value = NoValue\<rparr>"
  from assms obtain pa1 b1 where f: "decodePathAttrFlags buf ?pa0 = (Inr pa1, b1)"
    by (auto simp: decodePathAttr_def Let_def split: prod.splits sum.splits)
  then have l1: "length b1 < length buf"
    by (auto simp: decodePathAttrFlags_def split: prod.splits sum.splits dest: decode_u8_shorter)
  from assms f obtain tc b2 where t: "decode_u8 b1 = (Inr tc, b2)"
    by (auto simp: decodePathAttr_def Let_def split: prod.splits sum.splits)
  then have l2: "length b2 \<le> length b1" by (rule decode_u8_not_longer)
  from assms f t obtain pa2 n b3 where s: "setLength (pa1\<lparr>TypeCode := tc\<rparr>) b2 = (Inr (pa2, n), b3)"
    by (auto simp: decodePathAttr_def Let_def split: prod.splits sum.splits)
  then have l3: "length b3 \<le> length b2" by (rule setLength_not_longer)
  from assms f t s have "length b \<le> length b3"
    by (auto simp: decodePathAttr_def Let_def split: prod.splits sum.splits if_splits
        dest: decodeOrigin_not_longer decodeASPath_not_longer decodeNextHop_not_longer
          decodeMED_not_longer decodeLocalPref_not_longer decodeAggregator_not_longer)
  with l1 l2 l3 show ?thesis by simp
qed

text \<open>
  \<open>decodePathAttrs\<close>: \<open>for p < tpal\<close>.  Every round that succeeds takes at least the flags
  byte from the buffer.
\<close>

function decodePathAttrs_loop ::
  "uint16 \<Rightarrow> uint16 \<Rightarrow> PathAttribute list \<Rightarrow> buffer \<Rightarrow> (PathAttribute list) dec" where
  "decodePathAttrs_loop tpal p ret buf =
     (if p < tpal then
        (case decodePathAttr p buf of
           (Inl e, b) \<Rightarrow> (Inl e, b)
         | (Inr (pa, p'), b) \<Rightarrow> decodePathAttrs_loop tpal p' (ret @ [pa]) b)
      else (Inr ret, buf))"
  by pat_completeness auto
termination
  by (relation "measure (\<lambda>(tpal, p, ret, buf). length buf)")
    (auto dest: decodePathAttr_shorter [OF sym])

declare decodePathAttrs_loop.simps [simp del]

definition decodePathAttrs :: "buffer \<Rightarrow> uint16 \<Rightarrow> (PathAttribute list) dec" where
  "decodePathAttrs buf tpal = decodePathAttrs_loop tpal 0 [] buf"

subsection \<open>UPDATE\<close>

text \<open>
  The length of the NLRI part is \<open>uint16(l) - 4 - uint16(msg.TotalPathAttrLen) -
  uint16(msg.WithdrawnRoutesLen)\<close>, where \<open>l\<close> (here \<open>len\<close>) is the length of the body that
  \<open>Decode\<close> passes, the header's length minus 19.
\<close>

definition nlriLen_of :: "uint16 \<Rightarrow> uint16 \<Rightarrow> uint16 \<Rightarrow> uint16" where
  "nlriLen_of len tpal wrl = len - 4 - tpal - wrl"

definition decodeUpdateMsg :: "buffer \<Rightarrow> uint16 \<Rightarrow> BGPUpdate dec" where
  "decodeUpdateMsg buf len =
     (case decode_u16 buf of
        (Inl e, b) \<Rightarrow> (Inl e, b)
      | (Inr wrl, b1) \<Rightarrow>
     (case decodeNLRIs b1 wrl of
        (Inl e, b) \<Rightarrow> (Inl e, b)
      | (Inr wr, b2) \<Rightarrow>
     (case decode_u16 b2 of
        (Inl e, b) \<Rightarrow> (Inl e, b)
      | (Inr tpal, b3) \<Rightarrow>
     (case decodePathAttrs b3 tpal of
        (Inl e, b) \<Rightarrow> (Inl e, b)
      | (Inr pas, b4) \<Rightarrow>
          (let nlriLen = nlriLen_of len tpal wrl
           in if nlriLen > 0 then
                (case decodeNLRIs b4 nlriLen of
                   (Inl e, b) \<Rightarrow> (Inl e, b)
                 | (Inr ns, b5) \<Rightarrow>
                     (Inr \<lparr>WithdrawnRoutesLen = wrl, WithdrawnRoutes = wr, TotalPathAttrLen = tpal,
                           PathAttributes = pas, NLRIs = ns\<rparr>, b5))
              else (Inr \<lparr>WithdrawnRoutesLen = wrl, WithdrawnRoutes = wr, TotalPathAttrLen = tpal,
                         PathAttributes = pas, NLRIs = []\<rparr>, b4))))))"

subsection \<open>Whole messages\<close>

definition decodeMsgBody :: "buffer \<Rightarrow> uint8 \<Rightarrow> uint16 \<Rightarrow> body dec" where
  "decodeMsgBody buf msgType len =
     (if msgType = OpenMsg then
        (case decodeOpenMsg buf of (Inl e, b) \<Rightarrow> (Inl e, b) | (Inr m, b) \<Rightarrow> (Inr (OpenBody m), b))
      else if msgType = UpdateMsg then
        (case decodeUpdateMsg buf len of
           (Inl e, b) \<Rightarrow> (Inl e, b) | (Inr m, b) \<Rightarrow> (Inr (UpdateBody m), b))
      else if msgType = KeepaliveMsg then (Inr NoBody, buf)
      else if msgType = NotificationMsg then
        (case decodeNotificationMsg buf of
           (Inl e, b) \<Rightarrow> (Inl e, b) | (Inr m, b) \<Rightarrow> (Inr (NotificationBody m), b))
      else (Inl OtherError, buf))"

text \<open>
  \<open>Decode\<close> hands every error on as \<open>fmt.Errorf("Failed to decode ...: %v", err)\<close>.
\<close>

definition Decode :: "buffer \<Rightarrow> BGPMessage dec" where
  "Decode buf =
     (case decodeHeader buf of
        (Inl e, b) \<Rightarrow> (Inl (Errorf e), b)
      | (Inr hdr, b) \<Rightarrow>
          (case decodeMsgBody b (Type hdr) (Length hdr - MinLen) of
             (Inl e, b') \<Rightarrow> (Inl (Errorf e), b')
           | (Inr body, b') \<Rightarrow> (Inr \<lparr>Header = hdr, Body = body\<rparr>, b')))"

text \<open>
  The wire form of an NLRI as the specification gives it: the prefix length, then
  \<open>ceil(pfxlen / 8)\<close> address bytes.
\<close>

definition nlri_wire :: "NLRI \<Rightarrow> uint8 list" where
  "nlri_wire n = Pfxlen n # take ((unat (Pfxlen n) + 7) div 8) (IP n)"

section \<open>Package server: the peer state machine\<close>

text \<open>
  The states and the administrative events are integer constants in the source; they are
  enumerations here.  (The state \<open>Cease\<close> is \<open>CeaseState\<close>, since the decoder has an error
  code of that name.)
\<close>

datatype fsm_state = CeaseState | Idle | Connect | Active | OpenSent | OpenConfirm | Established

datatype event =
    ManualStart | ManualStop | AutomaticStart | ManualStartWithPassiveTcpEstablishment
  | AutomaticStartWithPassiveTcpEstablishment | AutomaticStop

text \<open>
  What the state machine does to the outside is recorded, in order, in a trace: the
  messages it writes to a connection (each with the message value that is handed to the
  serialiser), the connections it closes, what it does to its timers (durations in
  seconds), and the requests to the connector task.  A \<open>*net.TCPConn\<close> is a number,
  \<open>None\<close> the nil pointer.  Log output and the reason texts of state changes are left out.
  The field \<open>passive\<close> of the source is \<open>passiveFlag\<close>.
\<close>

type_synonym conn = nat

datatype timer = ConnectRetryTimer | HoldTimer | KeepaliveTimer

datatype action =
    WriteOpen conn BGPOpen
  | WriteKeepalive conn
  | WriteNotification conn BGPNotification
  | Close conn
  | StopTimer timer
  | ResetTimer timer nat
  | NewTimer timer nat
  | InitiateCon

record FSM =
  state :: fsm_state
  lastState :: fsm_state
  con :: "conn option"
  con2 :: "conn option"
  passiveFlag :: bool
  localASN :: uint16
  routerID :: uint32
  connectRetryTime :: nat
  connectRetryCounter :: int
  holdTimeConfigured :: nat
  holdTime :: nat
  keepaliveTime :: nat
  adjRibIn :: "LPM option"
  trace :: "action list"

text \<open>
  A state function of the source loops over a \<open>select\<close>; one round of it either stays in
  the loop, returns the next state, or ends in a run-time panic.
\<close>

datatype outcome = Continue | Return fsm_state | Panicked

definition emit :: "action \<Rightarrow> FSM \<Rightarrow> FSM" where
  "emit a fsm = fsm\<lparr>trace := trace fsm @ [a]\<rparr>"

definition close_con :: "conn option \<Rightarrow> FSM \<Rightarrow> FSM" where
  "close_con c fsm = (case c of None \<Rightarrow> fsm | Some k \<Rightarrow> emit (Close k) fsm)"

definition disconnect :: "FSM \<Rightarrow> FSM" where
  "disconnect fsm =
     (let f1 = (case con fsm of None \<Rightarrow> fsm | Some k \<Rightarrow> (emit (Close k) fsm)\<lparr>con := None\<rparr>)
      in case con2 f1 of None \<Rightarrow> f1 | Some k \<Rightarrow> (emit (Close k) f1)\<lparr>con2 := None\<rparr>)"

definition changeState :: "FSM \<Rightarrow> fsm_state \<Rightarrow> FSM \<times> outcome" where
  "changeState fsm new = (fsm\<lparr>lastState := state fsm, state := new\<rparr>, Return new)"

definition stopTimer :: "timer \<Rightarrow> FSM \<Rightarrow> FSM" where
  "stopTimer t fsm = emit (StopTimer t) fsm"

definition resetConnectRetryTimer :: "FSM \<Rightarrow> FSM" where
  "resetConnectRetryTimer fsm = emit (ResetTimer ConnectRetryTimer (connectRetryTime fsm)) fsm"

definition tcpConnect :: "FSM \<Rightarrow> FSM" where
  "tcpConnect fsm = emit InitiateCon fsm"

text \<open>
  \<open>sendOpen\<close> and \<open>sendKeepalive\<close> report whether the write succeeded; that is up to the
  connection, so it is an argument (\<open>wr_ok\<close>).  A write to a nil connection fails.
\<close>

definition sendOpen :: "FSM \<Rightarrow> conn option \<Rightarrow> bool \<Rightarrow> FSM \<times> bool" where
  "sendOpen fsm c wr_ok =
     (case c of
        None \<Rightarrow> (fsm, False)
      | Some k \<Rightarrow>
          (emit (WriteOpen k \<lparr>Version = BGP4Version, AS = localASN fsm,
                               HoldTime = of_nat (holdTimeConfigured fsm),
                               BGPIdentifier = routerID fsm, OptParmLen = 0\<rparr>) fsm, wr_ok))"

definition sendKeepalive :: "FSM \<Rightarrow> bool \<Rightarrow> FSM \<times> bool" where
  "sendKeepalive fsm wr_ok =
     (case con fsm of None \<Rightarrow> (fsm, False) | Some c \<Rightarrow> (emit (WriteKeepalive c) fsm, wr_ok))"

text \<open>
  \<open>sendNotification(c, errorCode, errorSubCode)\<close>: nothing is written to a nil connection;
  otherwise the message written is \<open>packet.SerializeNotificationMsg(&packet.BGPNotification{})\<close>,
  the serialisation of a notification whose fields have their zero values.  Its callers
  drop the error it returns.
\<close>

definition sendNotification :: "conn option \<Rightarrow> uint8 \<Rightarrow> uint8 \<Rightarrow> FSM \<Rightarrow> FSM" where
  "sendNotification c errorCode errorSubCode fsm =
     (case c of
        None \<Rightarrow> fsm
      | Some k \<Rightarrow> emit (WriteNotification k \<lparr>ErrorCode = 0, ErrorSubcode = 0\<rparr>) fsm)"

subsection \<open>Connect and Active\<close>

datatype waiting_input = WEvent event | WConnectRetryTimer | WConn conn

definition connectSendOpen :: "FSM \<Rightarrow> bool \<Rightarrow> FSM \<times> outcome" where
  "connectSendOpen fsm wr_ok =
     (case sendOpen fsm (con fsm) wr_ok of
        (f1, False) \<Rightarrow> changeState (stopTimer ConnectRetryTimer f1) Idle
      | (f1, True) \<Rightarrow> changeState (emit (NewTimer HoldTimer 240) f1) OpenSent)"

definition connect_step :: "FSM \<Rightarrow> waiting_input \<Rightarrow> bool \<Rightarrow> FSM \<times> outcome" where
  "connect_step fsm inp wr_ok =
     (case inp of
        WEvent e \<Rightarrow>
          if e = ManualStop
          then changeState (stopTimer ConnectRetryTimer (fsm\<lparr>connectRetryCounter := 0\<rparr>)) Idle
          else (fsm, Continue)
      | WConnectRetryTimer \<Rightarrow> (tcpConnect (resetConnectRetryTimer fsm), Continue)
      | WConn c \<Rightarrow> connectSendOpen (stopTimer ConnectRetryTimer (fsm\<lparr>con := Some c\<rparr>)) wr_ok)"

definition activeSendOpen :: "FSM \<Rightarrow> bool \<Rightarrow> FSM \<times> outcome" where
  "activeSendOpen fsm wr_ok =
     (case sendOpen fsm (con fsm) wr_ok of
        (f1, False) \<Rightarrow>
          (let f2 = resetConnectRetryTimer f1
           in changeState (f2\<lparr>connectRetryCounter := connectRetryCounter f2 + 1\<rparr>) Idle)
      | (f1, True) \<Rightarrow> changeState (emit (NewTimer HoldTimer 240) f1) OpenSent)"

definition active_step :: "FSM \<Rightarrow> waiting_input \<Rightarrow> bool \<Rightarrow> FSM \<times> outcome" where
  "active_step fsm inp wr_ok =
     (case inp of
        WEvent e \<Rightarrow>
          if e = ManualStop
          then (let f1 = disconnect fsm;
                    f2 = f1\<lparr>connectRetryCounter := 0\<rparr>;
                    f3 = stopTimer ConnectRetryTimer f2
                in changeState f3 Active)
          else (fsm, Continue)
      | WConnectRetryTimer \<Rightarrow> changeState (tcpConnect (resetConnectRetryTimer fsm)) Connect
      | WConn c \<Rightarrow> activeSendOpen (stopTimer ConnectRetryTimer (fsm\<lparr>con := Some c\<rparr>)) wr_ok)"

subsection \<open>Established\<close>

datatype established_input =
    EEvent event
  | EHoldTimer
  | EKeepaliveTimer
  | EConn conn
  | EMsgRecv "uint8 list" conn
  | EMsgRecvFail conn

text \<open>
  The end of every arm that leaves Established for Idle after a failure:
  \<open>stopTimer(fsm.connectRetryTimer); fsm.con.Close(); fsm.connectRetryCounter++;
  return fsm.changeState(Idle, ...)\<close>.
\<close>

definition fail_to_idle :: "FSM \<Rightarrow> FSM \<times> outcome" where
  "fail_to_idle fsm =
     (let f1 = stopTimer ConnectRetryTimer fsm;
          f2 = close_con (con f1) f1
      in changeState (f2\<lparr>connectRetryCounter := connectRetryCounter f2 + 1\<rparr>) Idle)"

definition openConfirmTCPFail :: "FSM \<Rightarrow> FSM \<times> outcome" where
  "openConfirmTCPFail fsm =
     (let f1 = close_con (con fsm) fsm;
          f2 = resetConnectRetryTimer f1
      in changeState (f2\<lparr>connectRetryCounter := connectRetryCounter f2 + 1\<rparr>) Idle)"

definition reset_hold :: "FSM \<Rightarrow> FSM" where
  "reset_hold fsm = (if holdTime fsm \<noteq> 0 then emit (ResetTimer HoldTimer (holdTime fsm)) fsm else fsm)"

text \<open>
  The UPDATE arm removes the withdrawn prefixes from the Adj-RIB-In and inserts the
  announced ones.  \<open>LPM.Remove\<close> is not among the sources, so it is an argument;
  \<open>convert.Uint32b\<close> reads the four address bytes as a big-endian number.  A nil
  \<open>adjRibIn\<close> (it is set on entry to Established) would make the first call panic.  The
  constant \<open>packet.ConnectionCollisionResolution\<close> is not among the sources either; it is
  Cease subcode 7 in BGP-4, and \<open>sendNotification\<close> does not look at it.
\<close>

definition nlri_pfx :: "NLRI \<Rightarrow> Prefix" where
  "nlri_pfx r = NewPfx (be32 (IP r ! 0) (IP r ! 1) (IP r ! 2) (IP r ! 3)) (Pfxlen r)"

definition apply_update :: "(LPM \<Rightarrow> Prefix \<Rightarrow> LPM) \<Rightarrow> BGPUpdate \<Rightarrow> LPM \<Rightarrow> LPM" where
  "apply_update Remove u rib =
     foldl (\<lambda>t r. Insert t (nlri_pfx r))
       (foldl (\<lambda>t r. Remove t (nlri_pfx r)) rib (WithdrawnRoutes u)) (NLRIs u)"

text \<open>The arm \<open>case recvMsg := <-fsm.msgRecvCh\<close> of \<open>established\<close>.\<close>

definition established_msgRecv ::
  "(LPM \<Rightarrow> Prefix \<Rightarrow> LPM) \<Rightarrow> FSM \<Rightarrow> uint8 list \<Rightarrow> FSM \<times> outcome" where
  "established_msgRecv Remove fsm bytes =
     (case fst (Decode bytes) of
        Inl Panic \<Rightarrow> (fsm, Panicked)
      | Inl (BGPError code sub) \<Rightarrow> fail_to_idle (sendNotification (con fsm) code sub fsm)
      | Inl OtherError \<Rightarrow> fail_to_idle fsm
      | Inr msg \<Rightarrow>
          if Type (Header msg) = NotificationMsg then fail_to_idle fsm
          else if Type (Header msg) = UpdateMsg then
            (case Body msg of
               UpdateBody u \<Rightarrow>
                 (case adjRibIn fsm of
                    Some rib \<Rightarrow>
                      ((reset_hold fsm)\<lparr>adjRibIn := Some (apply_update Remove u rib)\<rparr>, Continue)
                  | None \<Rightarrow>
                      if WithdrawnRoutes u = [] \<and> NLRIs u = [] then (reset_hold fsm, Continue)
                      else (reset_hold fsm, Panicked))
             | _ \<Rightarrow> (reset_hold fsm, Panicked))
          else if Type (Header msg) = KeepaliveMsg then (reset_hold fsm, Continue)
          else if Type (Header msg) = OpenMsg then
            (case con2 fsm of
               Some c2 \<Rightarrow>
                 ((close_con (Some c2) (sendNotification (Some c2) Cease 7 fsm))\<lparr>con2 := None\<rparr>,
                  Continue)
             | None \<Rightarrow> fail_to_idle (sendNotification (con fsm) FiniteStateMachineError 0 fsm))
          else fail_to_idle (sendNotification (con fsm) FiniteStateMachineError 0 fsm))"

definition established_enter :: "FSM \<Rightarrow> FSM" where
  "established_enter fsm = fsm\<lparr>adjRibIn := Some New\<rparr>"

definition established_step ::
  "(LPM \<Rightarrow> Prefix \<Rightarrow> LPM) \<Rightarrow> FSM \<Rightarrow> established_input \<Rightarrow> bool \<Rightarrow> FSM \<times> outcome" where
  "established_step Remove fsm inp wr_ok =
     (case inp of
        EEvent e \<Rightarrow>
          if e = ManualStop then
            (let f1 = sendNotification (con fsm) Cease 0 fsm;
                 f2 = stopTimer ConnectRetryTimer f1;
                 f3 = close_con (con f2) f2
             in changeState (f3\<lparr>connectRetryCounter := 0\<rparr>) Idle)
          else if e = AutomaticStop then fail_to_idle (sendNotification (con fsm) Cease 0 fsm)
          else (fsm, Continue)
      | EHoldTimer \<Rightarrow> fail_to_idle (sendNotification (con fsm) HoldTimeExpired 0 fsm)
      | EKeepaliveTimer \<Rightarrow>
          (case sendKeepalive fsm wr_ok of
             (f1, False) \<Rightarrow> fail_to_idle f1
           | (f1, True) \<Rightarrow> (emit (ResetTimer KeepaliveTimer (keepaliveTime f1)) f1, Continue))
      | EConn c \<Rightarrow> (emit (Close c) fsm, Continue)
      | EMsgRecv bytes c \<Rightarrow> established_msgRecv Remove fsm bytes
      | EMsgRecvFail c \<Rightarrow>
          if Some c = con fsm \<and> con2 fsm \<noteq> None
          then ((close_con (con fsm) fsm)\<lparr>con := con2 fsm, con2 := None\<rparr>, Continue)
          else if Some c = con2 fsm
          then ((close_con (con2 fsm) fsm)\<lparr>con2 := None\<rparr>, Continue)
          else openConfirmTCPFail fsm)"

section \<open>Properties of the prefix algebra\<close>

subsection \<open>Shifts and shift counts\<close>

lemma drop_bit_32_word: "drop_bit 32 (w :: uint32) = 0"
  by (rule bit_eqI) (auto simp add: bit_drop_bit_eq dest: bit_imp_le_length)

lemma min_u8_nat: "unat (min_u8 x y) = min (unat x) (unat y)"
  by (auto simp: min_u8_def word_less_nat_alt min_def)

lemma u8_pred: "(1::uint8) \<le> m \<Longrightarrow> unat (m - 1) = unat m - 1"
  by (simp add: unat_sub)

lemma u8_shift_count: "n \<le> 32 \<Longrightarrow> unat (32 - (of_nat n :: uint8)) = 32 - n"
proof -
  assume n: "n \<le> 32"
  then have u: "unat (of_nat n :: uint8) = n" by (simp add: unat_of_nat)
  then have "(of_nat n :: uint8) \<le> 32" using n by (simp add: word_le_nat_alt)
  then show ?thesis using u by (simp add: unat_sub)
qed

lemma u8_shift_count': "unat (n :: uint8) \<le> 32 \<Longrightarrow> unat (32 - n) = 32 - unat n"
  using u8_shift_count [of "unat n"] by simp

lemma top_bits_truncate:
  "top_bits K (push_bit (32 - K) (drop_bit (32 - K) (w :: uint32))) = top_bits K w"
  unfolding top_bits_def
  by (rule bit_eqI) (auto simp add: bit_drop_bit_eq bit_push_bit_iff dest: bit_imp_le_length)

lemma and_single_bit_truncate:
  "push_bit n (drop_bit n (w :: uint32)) AND 2 ^ n = w AND 2 ^ n"
  by (rule bit_eqI) (auto simp add: bit_simps)

subsection \<open>Contains\<close>

text \<open>
  Claim C1 says that \<open>Contains\<close> compares the top \<open>self.pfxlen\<close> bits of the two addresses.
  The source compares one bit only, the one that \<open>uint32(1) << (32 - pfxlen)\<close> selects:
  10.0.0.0/8 and 192.0.0.0/9 agree on bit 8 (it is 0 in both) and differ in their first
  two bits, so \<open>Contains\<close> answers true for a prefix that is not a subnet.
\<close>

theorem Contains_single_bit_not_subnet:
  "Contains (NewPfx 0x0A000000 8) (NewPfx 0xC0000000 9)
   \<and> \<not> contains_spec (NewPfx 0x0A000000 8) (NewPfx 0xC0000000 9)
   \<and> pfxlen (NewPfx 0x0A000000 8) \<le> 32 \<and> pfxlen (NewPfx 0xC0000000 9) \<le> 32"
  by (simp add: Contains_def contains_spec_def NewPfx_def shl32_def top_bits_def drop_bit_eq_div)

text \<open>The other direction holds: what the specification calls contained, the source accepts.\<close>

lemma contains_spec_imp_Contains:
  assumes len: "pfxlen self \<le> 32" and c: "contains_spec self x"
  shows "Contains self x"
proof -
  define k where "k = 32 - unat (pfxlen self)"
  have sh: "unat (32 - pfxlen self) = k"
    using len by (simp add: k_def u8_shift_count' word_le_nat_alt)
  have lt: "pfxlen self < pfxlen x"
    and eq: "drop_bit k (addr x) = drop_bit k (addr self)"
    using c by (simp_all add: contains_spec_def top_bits_def k_def)
  have "addr self AND 2 ^ k = push_bit k (drop_bit k (addr self)) AND 2 ^ k"
    by (simp add: and_single_bit_truncate)
  also have "\<dots> = addr x AND 2 ^ k"
    by (simp add: eq [symmetric] and_single_bit_truncate)
  finally show ?thesis
    using lt by (simp add: Contains_def shl32_def sh not_le)
qed

subsection \<open>GetSupernet\<close>

text \<open>
  The loop, started on the two addresses shifted right by \<open>32 - L\<close>, stops at the greatest
  \<open>K \<le> L\<close> for which the addresses shifted right by \<open>32 - K\<close> agree.
\<close>

lemma GetSupernet_loop_spec:
  "L \<le> 32 \<Longrightarrow>
   \<exists>K\<le>L. GetSupernet_loop (drop_bit (32 - L) A) (drop_bit (32 - L) B) (of_nat L)
            = (drop_bit (32 - K) A, of_nat K)
        \<and> drop_bit (32 - K) A = drop_bit (32 - K) B
        \<and> (\<forall>j. K < j \<and> j \<le> L \<longrightarrow> drop_bit (32 - j) A \<noteq> drop_bit (32 - j) B)"
proof (induction L)
  case 0
  show ?case
    by (rule exI [of _ "0::nat"]) (auto simp add: GetSupernet_loop.simps drop_bit_32_word)
next
  case (Suc L)
  then have L: "L \<le> 32" and SL: "Suc L \<le> 32" by simp_all
  show ?case
  proof (cases "drop_bit (32 - Suc L) A = drop_bit (32 - Suc L) B")
    case True
    show ?thesis
      by (rule exI [of _ "Suc L"]) (use True in \<open>auto simp add: GetSupernet_loop.simps\<close>)
  next
    case False
    from Suc.IH [OF L] obtain K where K: "K \<le> L"
      and loop: "GetSupernet_loop (drop_bit (32 - L) A) (drop_bit (32 - L) B) (of_nat L)
            = (drop_bit (32 - K) A, of_nat K)"
      and eq: "drop_bit (32 - K) A = drop_bit (32 - K) B"
      and ne: "\<forall>j. K < j \<and> j \<le> L \<longrightarrow> drop_bit (32 - j) A \<noteq> drop_bit (32 - j) B"
      by blast
    have sh: "Suc (31 - L) = 32 - L" using SL by simp
    have step: "\<And>w :: uint32. drop_bit 1 (drop_bit (32 - Suc L) w) = drop_bit (32 - L) w"
      using sh by (simp add: drop_bit_drop_bit)
    have "GetSupernet_loop (drop_bit (32 - Suc L) A) (drop_bit (32 - Suc L) B) (of_nat (Suc L))
        = GetSupernet_loop (drop_bit (32 - L) A) (drop_bit (32 - L) B) (of_nat L)"
      using False step by (subst GetSupernet_loop.simps) simp
    with loop have "GetSupernet_loop (drop_bit (32 - Suc L) A) (drop_bit (32 - Suc L) B) (of_nat (Suc L))
        = (drop_bit (32 - K) A, of_nat K)" by simp
    moreover have "\<forall>j. K < j \<and> j \<le> Suc L \<longrightarrow> drop_bit (32 - j) A \<noteq> drop_bit (32 - j) B"
      using ne False by (auto simp: le_Suc_eq)
    ultimately show ?thesis using K eq by (intro exI [of _ K]) simp
  qed
qed

lemma GetSupernet_char:
  assumes a: "1 \<le> pfxlen a" "pfxlen a \<le> 32" and b: "1 \<le> pfxlen b" "pfxlen b \<le> 32"
  shows "\<exists>K \<le> min (unat (pfxlen a)) (unat (pfxlen b)) - 1.
           GetSupernet a b = \<lparr>addr = push_bit (32 - K) (drop_bit (32 - K) (addr a)), pfxlen = of_nat K\<rparr>
         \<and> drop_bit (32 - K) (addr a) = drop_bit (32 - K) (addr b)
         \<and> (\<forall>j. K < j \<and> j \<le> min (unat (pfxlen a)) (unat (pfxlen b)) - 1
               \<longrightarrow> drop_bit (32 - j) (addr a) \<noteq> drop_bit (32 - j) (addr b))"
proof -
  define m where "m = min_u8 (pfxlen a) (pfxlen b)"
  define L where "L = unat m - 1"
  have m1: "1 \<le> m" and m32: "m \<le> 32"
    using a b by (auto simp: m_def min_u8_def)
  have um: "unat m = min (unat (pfxlen a)) (unat (pfxlen b))"
    by (simp add: m_def min_u8_nat)
  have "unat m \<le> 32" using m32 by (simp add: word_le_nat_alt)
  then have L32: "L \<le> 32" by (simp add: L_def)
  have mL: "m - 1 = of_nat L"
    using u8_pred [OF m1] by (metis L_def of_nat_unat ucast_id)
  from GetSupernet_loop_spec [OF L32, of "addr a" "addr b"]
  obtain K where K: "K \<le> L"
    and loop: "GetSupernet_loop (drop_bit (32 - L) (addr a)) (drop_bit (32 - L) (addr b)) (of_nat L)
        = (drop_bit (32 - K) (addr a), of_nat K)"
    and eq: "drop_bit (32 - K) (addr a) = drop_bit (32 - K) (addr b)"
    and ne: "\<forall>j. K < j \<and> j \<le> L \<longrightarrow> drop_bit (32 - j) (addr a) \<noteq> drop_bit (32 - j) (addr b)"
    by blast
  have K32: "K \<le> 32" using K L32 by simp
  have "GetSupernet a b = \<lparr>addr = push_bit (32 - K) (drop_bit (32 - K) (addr a)), pfxlen = of_nat K\<rparr>"
    unfolding GetSupernet_def Let_def m_def [symmetric] mL shr32_def shl32_def
    by (simp add: u8_shift_count [OF L32] u8_shift_count [OF K32] loop)
  then show ?thesis using K eq ne unfolding L_def um by blast
qed

text \<open>
  Claim C7, as it holds: for two prefixes whose lengths lie in 1..32, \<open>GetSupernet\<close> returns a
  prefix \<open>r\<close> that contains both (as top-bit equality, and for the source's \<open>Contains\<close>
  as well), no longer prefix contains both, and \<open>r\<close> is what the loop description says: its
  length is the first \<open>L\<close>, counted down from \<open>min(a.len, b.len) - 1\<close>, at which the two
  addresses shifted right by \<open>32 - L\<close> agree, and its address is that of \<open>a\<close> cut to
  \<open>L\<close> bits.
\<close>

theorem GetSupernet_longest_common:
  assumes a: "1 \<le> pfxlen a" "pfxlen a \<le> 32" and b: "1 \<le> pfxlen b" "pfxlen b \<le> 32"
  shows "contains_spec (GetSupernet a b) a \<and> contains_spec (GetSupernet a b) b
     \<and> Contains (GetSupernet a b) a \<and> Contains (GetSupernet a b) b
     \<and> (\<forall>r'. pfxlen (GetSupernet a b) < pfxlen r'
            \<longrightarrow> \<not> (contains_spec r' a \<and> contains_spec r' b))
     \<and> pfxlen (GetSupernet a b) \<le> min_u8 (pfxlen a) (pfxlen b) - 1
     \<and> shr32 (addr a) (32 - pfxlen (GetSupernet a b)) = shr32 (addr b) (32 - pfxlen (GetSupernet a b))
     \<and> (\<forall>L. pfxlen (GetSupernet a b) < L \<and> L \<le> min_u8 (pfxlen a) (pfxlen b) - 1
            \<longrightarrow> shr32 (addr a) (32 - L) \<noteq> shr32 (addr b) (32 - L))
     \<and> addr (GetSupernet a b)
          = shl32 (shr32 (addr a) (32 - pfxlen (GetSupernet a b))) (32 - pfxlen (GetSupernet a b))"
proof -
  define M where "M = min (unat (pfxlen a)) (unat (pfxlen b)) - 1"
  define r where "r = GetSupernet a b"
  have ua: "1 \<le> unat (pfxlen a)" "unat (pfxlen a) \<le> 32"
   and ub: "1 \<le> unat (pfxlen b)" "unat (pfxlen b) \<le> 32"
    using a b by (simp_all add: word_le_nat_alt)
  from GetSupernet_char [OF a b] obtain K where K: "K \<le> M"
    and rK: "r = \<lparr>addr = push_bit (32 - K) (drop_bit (32 - K) (addr a)), pfxlen = of_nat K\<rparr>"
    and eq: "drop_bit (32 - K) (addr a) = drop_bit (32 - K) (addr b)"
    and ne: "\<forall>j. K < j \<and> j \<le> M \<longrightarrow> drop_bit (32 - j) (addr a) \<noteq> drop_bit (32 - j) (addr b)"
    unfolding M_def r_def by blast
  have M31: "M \<le> 31" using ua ub by (simp add: M_def)
  have Ma: "M < unat (pfxlen a)" and Mb: "M < unat (pfxlen b)"
    using ua ub by (simp_all add: M_def)
  have uK: "unat (pfxlen r) = K" using K M31 by (simp add: rK unat_of_nat)
  have sK: "unat (32 - pfxlen r) = 32 - K"
    using u8_shift_count' [of "pfxlen r"] uK K M31 by simp
  have uM: "unat (min_u8 (pfxlen a) (pfxlen b) - 1) = M"
  proof -
    have "1 \<le> min_u8 (pfxlen a) (pfxlen b)" using a b by (simp add: min_u8_def)
    then show ?thesis by (simp add: u8_pred min_u8_nat M_def)
  qed
  have lt_a: "pfxlen r < pfxlen a" and lt_b: "pfxlen r < pfxlen b"
    using uK K Ma Mb by (simp_all add: word_less_nat_alt)
  have addr_r: "addr r = push_bit (32 - K) (drop_bit (32 - K) (addr a))"
    by (simp add: rK)
  have c1: "contains_spec r a"
    unfolding contains_spec_def uK addr_r using lt_a by (simp add: top_bits_truncate)
  have c2: "contains_spec r b"
  proof -
    have "top_bits K (addr b) = top_bits K (addr a)" using eq by (simp add: top_bits_def)
    then show ?thesis
      unfolding contains_spec_def uK addr_r using lt_b by (simp add: top_bits_truncate)
  qed
  have k1: "Contains r a"
    using lt_a unfolding Contains_def Let_def shl32_def sK addr_r
    by (simp add: and_single_bit_truncate not_le)
  have k2: "Contains r b"
    using lt_b unfolding Contains_def Let_def shl32_def sK addr_r eq
    by (simp add: and_single_bit_truncate not_le)
  have mx: "\<not> (contains_spec r' a \<and> contains_spec r' b)" if gt: "pfxlen r < pfxlen r'" for r'
  proof
    assume c: "contains_spec r' a \<and> contains_spec r' b"
    define j where "j = unat (pfxlen r')"
    have "K < j" using gt uK by (simp add: j_def word_less_nat_alt)
    moreover have "j < unat (pfxlen a)" "j < unat (pfxlen b)"
      using c by (simp_all add: contains_spec_def j_def word_less_nat_alt)
    then have "j \<le> M" by (simp add: M_def)
    moreover have "drop_bit (32 - j) (addr a) = drop_bit (32 - j) (addr b)"
      using c by (simp add: contains_spec_def top_bits_def j_def)
    ultimately show False using ne by blast
  qed
  have le: "pfxlen r \<le> min_u8 (pfxlen a) (pfxlen b) - 1"
    using K by (simp add: word_le_nat_alt uK uM)
  have e: "shr32 (addr a) (32 - pfxlen r) = shr32 (addr b) (32 - pfxlen r)"
    by (simp add: shr32_def sK eq)
  have d: "shr32 (addr a) (32 - L) \<noteq> shr32 (addr b) (32 - L)"
    if L: "pfxlen r < L \<and> L \<le> min_u8 (pfxlen a) (pfxlen b) - 1" for L
  proof -
    have "K < unat L" "unat L \<le> M"
      using L by (simp_all add: word_less_nat_alt word_le_nat_alt uK uM)
    moreover from this M31 have "unat (32 - L) = 32 - unat L"
      by (intro u8_shift_count') simp
    ultimately show ?thesis using ne by (simp add: shr32_def)
  qed
  have ad: "addr r = shl32 (shr32 (addr a) (32 - pfxlen r)) (32 - pfxlen r)"
    by (simp add: shl32_def shr32_def sK addr_r)
  show ?thesis
    using c1 c2 k1 k2 mx le e d ad unfolding r_def by blast
qed

text \<open>
  C7 at 10.0.0.0/8 and 192.0.0.0/8: the supernet is 0.0.0.0/0, the longer 10.0.0.0/7 does
  not contain both, and at \<open>L = 7\<close> the shifted addresses still differ.
\<close>

theorem GetSupernet_longest_common_witness:
  "1 \<le> pfxlen (NewPfx 0x0A000000 8) \<and> pfxlen (NewPfx 0x0A000000 8) \<le> 32
   \<and> 1 \<le> pfxlen (NewPfx 0xC0000000 8) \<and> pfxlen (NewPfx 0xC0000000 8) \<le> 32
   \<and> GetSupernet (NewPfx 0x0A000000 8) (NewPfx 0xC0000000 8) = NewPfx 0 0
   \<and> contains_spec (NewPfx 0 0) (NewPfx 0x0A000000 8)
   \<and> contains_spec (NewPfx 0 0) (NewPfx 0xC0000000 8)
   \<and> pfxlen (NewPfx 0 0) < pfxlen (NewPfx 0x0A000000 7)
   \<and> \<not> (contains_spec (NewPfx 0x0A000000 7) (NewPfx 0x0A000000 8)
          \<and> contains_spec (NewPfx 0x0A000000 7) (NewPfx 0xC0000000 8))
   \<and> pfxlen (NewPfx 0 0) < 7 \<and> (7 :: uint8) \<le> min_u8 8 8 - 1
   \<and> shr32 0x0A000000 (32 - 7) \<noteq> shr32 0xC0000000 (32 - 7)"
proof -
  have h: "1 \<le> pfxlen (NewPfx 0x0A000000 8)" "pfxlen (NewPfx 0x0A000000 8) \<le> 32"
    "1 \<le> pfxlen (NewPfx 0xC0000000 8)" "pfxlen (NewPfx 0xC0000000 8) \<le> 32"
    by (simp_all add: NewPfx_def)
  have r: "GetSupernet (NewPfx 0x0A000000 8) (NewPfx 0xC0000000 8) = NewPfx 0 0"
    by code_simp
  have p: "pfxlen (NewPfx 0 0) < pfxlen (NewPfx 0x0A000000 7)"
    and q: "pfxlen (NewPfx 0 0) < 7 \<and> (7 :: uint8) \<le> min_u8 8 8 - 1"
    by (simp_all add: NewPfx_def min_u8_def)
  note t = GetSupernet_longest_common [OF h, unfolded r]
  have ls: "pfxlen (NewPfx 0x0A000000 8) = 8" "pfxlen (NewPfx 0xC0000000 8) = 8"
    "addr (NewPfx 0x0A000000 8) = 0x0A000000" "addr (NewPfx 0xC0000000 8) = 0xC0000000"
    by (simp_all add: NewPfx_def)
  from t have c: "contains_spec (NewPfx 0 0) (NewPfx 0x0A000000 8)"
    "contains_spec (NewPfx 0 0) (NewPfx 0xC0000000 8)" by blast+
  from t p have m: "\<not> (contains_spec (NewPfx 0x0A000000 7) (NewPfx 0x0A000000 8)
          \<and> contains_spec (NewPfx 0x0A000000 7) (NewPfx 0xC0000000 8))" by blast
  from t have "\<forall>L. pfxlen (NewPfx 0 0) < L \<and> L \<le> min_u8 8 8 - 1
      \<longrightarrow> shr32 0x0A000000 (32 - L) \<noteq> shr32 0xC0000000 (32 - L)"
    unfolding ls by blast
  with q have d: "shr32 0x0A000000 (32 - 7) \<noteq> shr32 0xC0000000 (32 - 7)" by blast
  show ?thesis using h r c m p q d by blast
qed

text \<open>
  C7 as stated fails for a prefix of length 0: \<open>min(a.len, b.len) - 1\<close> wraps to 255, both
  shifts give 0, and the result 0.0.0.0/255 contains neither argument.  No prefix contains
  a prefix of length 0, so no result could have satisfied the claim there.
\<close>

theorem GetSupernet_zero_length_counterexample:
  "GetSupernet (NewPfx 0 0) (NewPfx 0x0A000000 8) = NewPfx 0 255
   \<and> NewPfx 0 0 \<noteq> NewPfx 0x0A000000 8
   \<and> \<not> Contains (GetSupernet (NewPfx 0 0) (NewPfx 0x0A000000 8)) (NewPfx 0 0)
   \<and> \<not> contains_spec (GetSupernet (NewPfx 0 0) (NewPfx 0x0A000000 8)) (NewPfx 0 0)"
  by code_simp

text \<open>
  Maximality is stated for containment as top-bit equality.  For the single-bit test of
  \<open>Contains\<close> it does not hold: the supernet of 128.0.0.0/8 and 0.0.0.0/8 is 0.0.0.0/0,
  and \<open>Contains\<close> accepts both below the longer 0.0.0.0/7, since bit 7 is 0 in both.
\<close>

lemma GetSupernet_not_longest_for_Contains:
  "GetSupernet (NewPfx 0x80000000 8) (NewPfx 0 8) = NewPfx 0 0
   \<and> Contains (NewPfx 0 7) (NewPfx 0x80000000 8) \<and> Contains (NewPfx 0 7) (NewPfx 0 8)"
  by code_simp

section \<open>Properties of the trie\<close>

subsection \<open>Pre-order listing and lookup\<close>


lemma dumpPfxs_preorder: "n \<noteq> nil \<Longrightarrow> dumpPfxs n res = res @ preorder n"
  by (induction n arbitrary: res) (auto simp: Let_def)

lemma Get_preorder: "Get t p True = preorder (get (root t) p)"
  by (cases "get (root t) p = nil") (auto simp: Get_def Let_def dumpPfxs_preorder)

lemma get_found:
  "get n p = m \<Longrightarrow> m \<noteq> nil \<Longrightarrow>
     pfx m = p \<and> \<not> dummy m \<and> set (preorder m) \<subseteq> set (preorder n) \<and> p \<in> set (preorder n)"
proof (induction n p rule: get.induct)
  case (1 p)
  then show ?case by simp
next
  case (2 s d q lo hi p)
  then show ?case by (auto split: if_splits)
qed

subsection \<open>Containment is transitive, decision bits are inherited\<close>

lemma contains_spec_trans:
  assumes "contains_spec p q" "contains_spec q r"
  shows "contains_spec p r"
proof -
  define np nq where "np = unat (pfxlen p)" and "nq = unat (pfxlen q)"
  have lt: "np < nq" using assms(1) by (simp add: contains_spec_def np_def nq_def word_less_nat_alt)
  have e: "drop_bit (32 - nq) (addr r) = drop_bit (32 - nq) (addr q)"
    using assms(2) by (simp add: contains_spec_def top_bits_def nq_def)
  define k where "k = (32 - np) - (32 - nq)"
  have s: "32 - np = k + (32 - nq)" using lt by (simp add: k_def)
  have "drop_bit k (drop_bit (32 - nq) (addr r)) = drop_bit k (drop_bit (32 - nq) (addr q))"
    by (simp only: e)
  then have "drop_bit (32 - np) (addr r) = drop_bit (32 - np) (addr q)"
    by (simp only: drop_bit_drop_bit s [symmetric])
  moreover have "pfxlen p < pfxlen r" using assms by (auto simp add: contains_spec_def)
  ultimately show ?thesis
    using assms(1) by (simp add: contains_spec_def top_bits_def np_def)
qed

lemma getBit_iff: "unat (32 - pos :: uint8) = k \<Longrightarrow> getBitUint32 x pos = bit x k"
  by (simp add: getBitUint32_def shl32_def bit_iff_and_push_bit_not_eq_0)

lemma decision_bit_inherited:
  assumes c: "contains_spec c q" and lt: "pfxlen p < pfxlen c"
  shows "getBitUint32 (addr q) (pfxlen p + 1) = getBitUint32 (addr c) (pfxlen p + 1)"
proof (cases "32 \<le> unat (pfxlen c)")
  case True
  then have "addr q = addr c" using c by (simp add: contains_spec_def top_bits_def)
  then show ?thesis by simp
next
  case False
  define np nc where "np = unat (pfxlen p)" and "nc = unat (pfxlen c)"
  have b: "np < nc" "nc < 32" using lt False by (simp_all add: np_def nc_def word_less_nat_alt)
  have u: "unat (pfxlen p + 1) = np + 1"
    using b by (simp add: np_def unat_word_ariths)
  have "unat (32 - (pfxlen p + 1)) = 32 - (np + 1)"
    using u8_shift_count' [of "pfxlen p + 1"] u b by simp
  then have g: "\<And>x. getBitUint32 x (pfxlen p + 1) = bit x (31 - np)"
    using b by (intro getBit_iff) simp
  have e: "drop_bit (32 - nc) (addr q) = drop_bit (32 - nc) (addr c)"
    using c by (simp add: contains_spec_def top_bits_def nc_def)
  define j where "j = nc - np - 1"
  have i: "(32 - nc) + j = 31 - np" using b by (simp add: j_def)
  have "bit (addr q) (31 - np) = bit (drop_bit (32 - nc) (addr q)) j"
    by (simp add: bit_drop_bit_eq i)
  also have "\<dots> = bit (addr c) (31 - np)"
    by (simp add: e bit_drop_bit_eq i)
  finally show ?thesis by (simp add: g)
qed

subsection \<open>What the node invariant says about whole subtrees\<close>

lemma invar_below:
  "invar c \<Longrightarrow> child_ok p b c \<Longrightarrow> q \<in> set (preorder c) \<Longrightarrow>
     contains_spec p q \<and> getBitUint32 (addr q) (pfxlen p + 1) = b"
proof (induction c arbitrary: p b)
  case nil
  then show ?case by simp
next
  case (Node s d x lo hi)
  from Node.prems have px: "contains_spec p x" and bx: "getBitUint32 (addr x) (pfxlen p + 1) = b"
    by (simp_all add: child_ok_def)
  from px have lt: "pfxlen p < pfxlen x" by (simp add: contains_spec_def)
  consider "q = x" | "q \<in> set (preorder lo)" | "q \<in> set (preorder hi)"
    using Node.prems(3) by (auto split: if_splits)
  then show ?case
  proof cases
    case 1
    then show ?thesis using px bx by simp
  next
    case 2
    with Node.IH(1) [of x False] Node.prems(1) have xq: "contains_spec x q" by simp
    show ?thesis
      using contains_spec_trans [OF px xq] decision_bit_inherited [OF xq lt] bx by simp
  next
    case 3
    with Node.IH(2) [of x True] Node.prems(1) have xq: "contains_spec x q" by simp
    show ?thesis
      using contains_spec_trans [OF px xq] decision_bit_inherited [OF xq lt] bx by simp
  qed
qed

lemma contains_spec_len: "contains_spec p q \<Longrightarrow> pfxlen p < pfxlen q"
  by (simp add: contains_spec_def)

lemma contains_spec_not_len: "contains_spec p q \<Longrightarrow> \<not> pfxlen q < pfxlen p"
  by (auto simp add: contains_spec_def)

lemma get_finds:
  "invar n \<Longrightarrow> p \<in> set (preorder n) \<Longrightarrow> get n p \<noteq> nil"
proof (induction n)
  case nil
  then show ?case by simp
next
  case (Node s d x lo hi)
  show ?case
  proof (cases "x = p")
    case True
    have "\<not> d"
    proof
      assume d
      with Node.prems(2) have "p \<in> set (preorder lo) \<or> p \<in> set (preorder hi)" by simp
      then have "contains_spec x p"
        using Node.prems(1) invar_below [of lo x False p] invar_below [of hi x True p] by auto
      then show False using True by (simp add: contains_spec_def)
    qed
    then show ?thesis using True by simp
  next
    case False
    with Node.prems(2) consider "p \<in> set (preorder lo)" | "p \<in> set (preorder hi)"
      by (auto split: if_splits)
    then show ?thesis
    proof cases
      case 1
      with Node.prems(1) invar_below [of lo x False p]
      have "contains_spec x p" "\<not> getBitUint32 (addr p) (pfxlen x + 1)" by simp_all
      moreover from this have "\<not> pfxlen p < pfxlen x" by (simp add: contains_spec_not_len)
      ultimately show ?thesis using False 1 Node by simp
    next
      case 2
      with Node.prems(1) invar_below [of hi x True p]
      have "contains_spec x p" "getBitUint32 (addr p) (pfxlen x + 1)" by simp_all
      moreover from this have "\<not> pfxlen p < pfxlen x" by (simp add: contains_spec_not_len)
      ultimately show ?thesis using False 2 Node by simp
    qed
  qed
qed

lemma get_keeps_more_specifics:
  "invar n \<Longrightarrow> get n p \<noteq> nil \<Longrightarrow> q \<in> set (preorder n) \<Longrightarrow> contains_spec p q \<Longrightarrow>
     q \<in> set (preorder (get n p))"
proof (induction n)
  case nil
  then show ?case by simp
next
  case (Node s d x lo hi)
  show ?case
  proof (cases "x = p")
    case True
    then show ?thesis using Node.prems by (auto split: if_splits)
  next
    case False
    from Node.prems(2) False have le: "\<not> pfxlen p < pfxlen x" by (auto split: if_splits)
    have qx: "q \<noteq> x"
    proof
      assume "q = x"
      with Node.prems(4) have "pfxlen p < pfxlen x" by (simp add: contains_spec_def)
      with le show False by simp
    qed
    show ?thesis
    proof (cases "getBitUint32 (addr p) (pfxlen x + 1)")
      case b: False
      then have g: "get (Node s d x lo hi) p = get lo p" using False le by simp
      with Node.prems(2) have "get lo p \<noteq> nil" by simp
      then have "p \<in> set (preorder lo)" using get_found [of lo p] by simp
      with Node.prems(1) invar_below [of lo x False p] have xp: "contains_spec x p" by simp
      then have lt: "pfxlen x < pfxlen p" by (simp add: contains_spec_def)
      have "q \<notin> set (preorder hi)"
      proof
        assume "q \<in> set (preorder hi)"
        with Node.prems(1) invar_below [of hi x True q]
        have "getBitUint32 (addr q) (pfxlen x + 1)" by simp
        with decision_bit_inherited [OF Node.prems(4) lt] b show False by simp
      qed
      with Node.prems(3) qx have "q \<in> set (preorder lo)" by (auto split: if_splits)
      with Node.IH(1) Node.prems g show ?thesis by simp
    next
      case b: True
      then have g: "get (Node s d x lo hi) p = get hi p" using False le by simp
      with Node.prems(2) have "get hi p \<noteq> nil" by simp
      then have "p \<in> set (preorder hi)" using get_found [of hi p] by simp
      with Node.prems(1) invar_below [of hi x True p] have xp: "contains_spec x p" by simp
      then have lt: "pfxlen x < pfxlen p" by (simp add: contains_spec_def)
      have "q \<notin> set (preorder lo)"
      proof
        assume "q \<in> set (preorder lo)"
        with Node.prems(1) invar_below [of lo x False q]
        have "\<not> getBitUint32 (addr q) (pfxlen x + 1)" by simp
        with decision_bit_inherited [OF Node.prems(4) lt] b show False by simp
      qed
      with Node.prems(3) qx have "q \<in> set (preorder hi)" by (auto split: if_splits)
      with Node.IH(2) Node.prems g show ?thesis by simp
    qed
  qed
qed

lemma node_below:
  "invar m \<Longrightarrow> m \<noteq> nil \<Longrightarrow> q \<in> set (preorder (l m)) \<union> set (preorder (h m)) \<Longrightarrow>
     contains_spec (pfx m) q"
  using invar_below [of "l m" "pfx m" False q] invar_below [of "h m" "pfx m" True q]
  by (cases m) auto

lemma invar_get: "invar n \<Longrightarrow> invar (get n p)"
  by (induction n p rule: get.induct) auto

text \<open>
  What \<open>Get\<close> with more-specifics does in a trie that satisfies the node invariant: when
  \<open>p\<close> is stored as a real prefix, \<open>Get(p, true)\<close> is \<open>p\<close> followed by the pre-order
  listing of the low and of the high subtree under \<open>p\<close>'s node, and the prefixes returned
  are \<open>p\<close> and exactly the real stored prefixes that \<open>p\<close> contains; when \<open>p\<close> is not
  stored as a real prefix (absent, or only a dummy node), \<open>Get(p, true)\<close> is empty.
\<close>

lemma Get_invar_more_specifics:
  assumes inv: "invar (root t)"
  shows "(p \<in> set (preorder (root t)) \<longrightarrow>
            Get t p True = p # preorder (l (get (root t) p)) @ preorder (h (get (root t) p))
          \<and> set (Get t p True) = {p} \<union> {q \<in> set (preorder (root t)). contains_spec p q})
       \<and> (p \<notin> set (preorder (root t)) \<longrightarrow> Get t p True = [])"
proof (intro conjI impI)
  assume "p \<notin> set (preorder (root t))"
  then have "get (root t) p = nil" using get_found [of "root t" p] by blast
  then show "Get t p True = []" by (simp add: Get_preorder)
next
  assume p: "p \<in> set (preorder (root t))"
  define m where "m = get (root t) p"
  have m: "m \<noteq> nil" using get_finds [OF inv p] by (simp add: m_def)
  from get_found [OF m_def [symmetric] m]
  have pm: "pfx m = p" and dm: "\<not> dummy m" and sub: "set (preorder m) \<subseteq> set (preorder (root t))"
    by simp_all
  have pre: "preorder m = p # preorder (l m) @ preorder (h m)"
    using m pm dm by (cases m) simp_all
  then show "Get t p True = p # preorder (l (get (root t) p)) @ preorder (h (get (root t) p))"
    by (simp add: Get_preorder m_def)
  have im: "invar m" using invar_get [OF inv] by (simp add: m_def)
  have "set (preorder m) = {p} \<union> {q \<in> set (preorder (root t)). contains_spec p q}"
  proof (intro equalityI subsetI)
    fix q assume q: "q \<in> set (preorder m)"
    then consider "q = p" | "q \<in> set (preorder (l m)) \<union> set (preorder (h m))"
      using pre by auto
    then show "q \<in> {p} \<union> {q \<in> set (preorder (root t)). contains_spec p q}"
    proof cases
      case 1
      then show ?thesis by simp
    next
      case 2
      from node_below [OF im m 2] pm sub q show ?thesis by auto
    qed
  next
    fix q assume "q \<in> {p} \<union> {q \<in> set (preorder (root t)). contains_spec p q}"
    then consider "q = p" | "q \<in> set (preorder (root t))" "contains_spec p q" by blast
    then show "q \<in> set (preorder m)"
    proof cases
      case 1
      then show ?thesis using pre by simp
    next
      case 2
      from get_keeps_more_specifics [OF inv _ 2] m show ?thesis by (simp add: m_def)
    qed
  qed
  then show "set (Get t p True) = {p} \<union> {q \<in> set (preorder (root t)). contains_spec p q}"
    by (simp add: Get_preorder m_def)
qed

text \<open>
  The trie built from 10.0.0.0/8, 11.100.123.0/24, 10.0.0.0/12 and 10.0.0.0/10 satisfies the
  invariant: the more-specifics of the stored 10.0.0.0/8, and the empty answer for
  11.0.0.0/8, which is not stored.
\<close>

lemma Get_invar_more_specifics_example:
  "invar (root (Insert (Insert (Insert (Insert New (NewPfx 167772160 8)) (NewPfx 191134464 24))
       (NewPfx 167772160 12)) (NewPfx 167772160 10)))
   \<and> NewPfx 167772160 8 \<in> set (preorder (root (Insert (Insert (Insert (Insert New
       (NewPfx 167772160 8)) (NewPfx 191134464 24)) (NewPfx 167772160 12)) (NewPfx 167772160 10))))
   \<and> Get (Insert (Insert (Insert (Insert New (NewPfx 167772160 8)) (NewPfx 191134464 24))
       (NewPfx 167772160 12)) (NewPfx 167772160 10)) (NewPfx 167772160 8) True
      = [NewPfx 167772160 8, NewPfx 167772160 10, NewPfx 167772160 12]
   \<and> set (Get (Insert (Insert (Insert (Insert New (NewPfx 167772160 8)) (NewPfx 191134464 24))
       (NewPfx 167772160 12)) (NewPfx 167772160 10)) (NewPfx 167772160 8) True)
      = {NewPfx 167772160 8} \<union> {q \<in> set (preorder (root (Insert (Insert (Insert (Insert New
           (NewPfx 167772160 8)) (NewPfx 191134464 24)) (NewPfx 167772160 12)) (NewPfx 167772160 10)))).
           contains_spec (NewPfx 167772160 8) q}
   \<and> NewPfx 184549376 8 \<notin> set (preorder (root (Insert (Insert (Insert (Insert New
       (NewPfx 167772160 8)) (NewPfx 191134464 24)) (NewPfx 167772160 12)) (NewPfx 167772160 10))))
   \<and> Get (Insert (Insert (Insert (Insert New (NewPfx 167772160 8)) (NewPfx 191134464 24))
       (NewPfx 167772160 12)) (NewPfx 167772160 10)) (NewPfx 184549376 8) True = []"
proof -
  define t where "t = Insert (Insert (Insert (Insert New (NewPfx 167772160 8)) (NewPfx 191134464 24))
       (NewPfx 167772160 12)) (NewPfx 167772160 10)"
  have inv: "invar (root t)" unfolding t_def by code_simp
  have mem: "NewPfx 167772160 8 \<in> set (preorder (root t))" unfolding t_def by code_simp
  have nmem: "NewPfx 184549376 8 \<notin> set (preorder (root t))" unfolding t_def by code_simp
  have val: "Get t (NewPfx 167772160 8) True
      = [NewPfx 167772160 8, NewPfx 167772160 10, NewPfx 167772160 12]"
    unfolding t_def by code_simp
  from Get_invar_more_specifics [OF inv, of "NewPfx 167772160 8"] mem
  have s: "set (Get t (NewPfx 167772160 8) True)
      = {NewPfx 167772160 8} \<union> {q \<in> set (preorder (root t)). contains_spec (NewPfx 167772160 8) q}"
    by blast
  from Get_invar_more_specifics [OF inv, of "NewPfx 184549376 8"] nmem
  have e: "Get t (NewPfx 184549376 8) True = []" by blast
  show ?thesis using inv mem nmem val s e unfolding t_def by blast
qed

text \<open>
  For a prefix that is not stored \<open>Get(p, true)\<close> is empty, also when stored prefixes lie
  inside it: with 10.0.0.0/8 and 10.0.0.0/10 in the trie, \<open>Get(10.0.0.0/9, true)\<close> is empty.
\<close>

lemma Get_absent_prefix_empty:
  "Get (Insert (Insert New (NewPfx 0x0A000000 8)) (NewPfx 0x0A000000 10)) (NewPfx 0x0A000000 9) True = []
   \<and> NewPfx 0x0A000000 10
        \<in> set (preorder (root (Insert (Insert New (NewPfx 0x0A000000 8)) (NewPfx 0x0A000000 10))))
   \<and> contains_spec (NewPfx 0x0A000000 9) (NewPfx 0x0A000000 10)
   \<and> invar (root (Insert (Insert New (NewPfx 0x0A000000 8)) (NewPfx 0x0A000000 10)))"
  by code_simp

text \<open>
  Claim C3 promises, for every trie and every prefix \<open>p\<close>, that \<open>Get(p, true)\<close> returns
  \<open>p\<close> when it is stored as a real prefix, plus exactly the real stored prefixes that
  \<open>p\<close> contains.  \<open>Insert\<close> builds tries on which \<open>Get\<close> does not.

  Insert 10.128.0.0/9 and then 10.0.0.0/8.  The new prefix contains the root, so
  \<open>insertBefore\<close> makes it the root and hangs the old root below it.  It chooses the slot
  from \<open>getBitUint32(pfx.Addr(), parentPfxLen)\<close>, a bit of the new prefix at position
  \<open>pfxlen - skip - 1\<close>, which is 255 for a root and reads as 0: 10.128.0.0/9 lands in the
  low slot although its decision bit, bit 9, is 1.  \<open>get\<close> follows the decision bit into the
  empty high slot, so \<open>Get(10.128.0.0/9, true)\<close> is empty although the prefix is stored as a
  real prefix (\<open>dumpPfxs\<close> of the root and \<open>Get(10.0.0.0/8, true)\<close> list it).

  Insert 10.0.0.0/8 and then 12.0.0.0/24.  The single-bit test of \<open>Contains\<close> takes
  12.0.0.0/24 for a subnet of 10.0.0.0/8, \<open>insert\<close> stores it below 10.0.0.0/8, and
  \<open>Get(10.0.0.0/8, true)\<close> lists 12.0.0.0/24, whose first octet is not 10.
\<close>

theorem Get_more_specifics_wrong_after_Insert:
  "root (Insert (Insert New (NewPfx 0x0A800000 9)) (NewPfx 0x0A000000 8))
     = Node 8 False (NewPfx 0x0A000000 8) (Node 0 False (NewPfx 0x0A800000 9) nil nil) nil
   \<and> \<not> getBitUint32 0x0A000000 (9 - 9 - 1)
   \<and> getBitUint32 0x0A800000 (8 + 1)
   \<and> dumpPfxs (root (Insert (Insert New (NewPfx 0x0A800000 9)) (NewPfx 0x0A000000 8))) []
     = [NewPfx 0x0A000000 8, NewPfx 0x0A800000 9]
   \<and> Get (Insert (Insert New (NewPfx 0x0A800000 9)) (NewPfx 0x0A000000 8))
         (NewPfx 0x0A800000 9) True = []
   \<and> Get (Insert (Insert New (NewPfx 0x0A800000 9)) (NewPfx 0x0A000000 8))
         (NewPfx 0x0A000000 8) True = [NewPfx 0x0A000000 8, NewPfx 0x0A800000 9]
   \<and> root (Insert (Insert New (NewPfx 0x0A000000 8)) (NewPfx 0x0C000000 24))
     = Node 8 False (NewPfx 0x0A000000 8) (Node 15 False (NewPfx 0x0C000000 24) nil nil) nil
   \<and> Get (Insert (Insert New (NewPfx 0x0A000000 8)) (NewPfx 0x0C000000 24))
         (NewPfx 0x0A000000 8) True = [NewPfx 0x0A000000 8, NewPfx 0x0C000000 24]
   \<and> Contains (NewPfx 0x0A000000 8) (NewPfx 0x0C000000 24)
   \<and> \<not> contains_spec (NewPfx 0x0A000000 8) (NewPfx 0x0C000000 24)
   \<and> top_bits 8 0x0A000000 = 0x0A \<and> top_bits 8 0x0C000000 = 0x0C"
  by code_simp

text \<open>
  Neither of the two tries satisfies the node invariant, and a third way to lose it: after
  0.0.0.0/16, 1.0.0.0/24 and 0.0.0.0/8 the single-bit test of \<open>Contains\<close> has put
  1.0.0.0/24 below 0.0.0.0/16, and \<open>Get(0.0.0.0/8, true)\<close> lists it although 0.0.0.0/8
  does not contain it.
\<close>

lemma Insert_breaks_invar:
  "\<not> invar (root (Insert (Insert New (NewPfx 0x0A800000 9)) (NewPfx 0x0A000000 8)))
   \<and> \<not> invar (root (Insert (Insert New (NewPfx 0x0A000000 8)) (NewPfx 0x0C000000 24)))
   \<and> Get (Insert (Insert (Insert New (NewPfx 0 16)) (NewPfx 0x01000000 24)) (NewPfx 0 8))
       (NewPfx 0 8) True
     = [NewPfx 0 8, NewPfx 0 16, NewPfx 0x01000000 24]
   \<and> \<not> Contains (NewPfx 0 8) (NewPfx 0x01000000 24)
   \<and> \<not> contains_spec (NewPfx 0 8) (NewPfx 0x01000000 24)
   \<and> \<not> invar (root (Insert (Insert (Insert New (NewPfx 0 16)) (NewPfx 0x01000000 24))
          (NewPfx 0 8)))"
  by code_simp

subsection \<open>Insert and the longest-prefix match\<close>

text \<open>
  Claim C5 promises, after any sequence of inserts, an \<open>LPM(p)\<close> that ends in \<open>p\<close> with
  strictly increasing prefix lengths.  Insert 10.128.0.0/9, then 10.0.0.0/8, then
  10.128.0.0/9 again: \<open>insertBefore\<close> chooses the slot of the old root from a bit of the
  new prefix at position \<open>pfxlen - skip - 1\<close> (255 for a root) and hangs 10.128.0.0/9 into
  the low slot although its decision bit is 1; the repeated insert then descends into the
  empty high slot and stores the prefix a second time.  The match lists it twice.
\<close>

theorem LPM_after_insertBefore_lists_prefix_twice:
  "root (Insert (Insert New (NewPfx 0x0A800000 9)) (NewPfx 0x0A000000 8))
     = Node 8 False (NewPfx 0x0A000000 8) (Node 0 False (NewPfx 0x0A800000 9) nil nil) nil
   \<and> getBitUint32 0x0A800000 (8 + 1)
   \<and> LPM_query (Insert (Insert (Insert New (NewPfx 0x0A800000 9)) (NewPfx 0x0A000000 8))
          (NewPfx 0x0A800000 9)) (NewPfx 0x0A800000 9)
     = [NewPfx 0x0A000000 8, NewPfx 0x0A800000 9, NewPfx 0x0A800000 9]"
  by code_simp

section \<open>Properties of the decoder\<close>

subsection \<open>Reading fields\<close>

lemma decode_u8_Cons [simp]: "decode_u8 (x # r) = (Inr x, r)"
  by (simp add: decode_u8_def)

lemma decode_u16_Cons [simp]: "decode_u16 (a # b # r) = (Inr (be16 a b), r)"
  by (simp add: decode_u16_def)

lemma unat_ucast_u8_u16: "unat (ucast (a :: uint8) :: uint16) = unat a"
proof -
  have "unat a < 2 ^ 16" using unsigned_less [of a, where 'a = nat] by simp
  then show ?thesis by (simp add: unsigned_ucast_eq take_bit_nat_eq_self)
qed

lemma unat_be16: "unat (be16 a b) = 256 * unat a + unat b"
proof -
  have ua: "unat a < 256" and ub: "unat b < 256"
    using unsigned_less [of a, where 'a = nat] unsigned_less [of b, where 'a = nat] by simp_all
  have "be16 a b = push_bit 8 (ucast a) + ucast b"
    unfolding be16_def
    by (rule disjunctive_add [symmetric]) (auto simp: bit_simps dest: bit_imp_le_length)
  also have "unat \<dots> = (256 * unat a + unat b) mod 65536"
    by (simp add: unat_word_ariths push_bit_eq_mult unat_ucast_u8_u16 mod_simps mult.commute)
  also have "\<dots> = 256 * unat a + unat b" using ua ub by simp
  finally show ?thesis .
qed

lemma u8_zero_iff: "(sub :: uint8) = 0 \<longleftrightarrow> \<not> 1 \<le> sub"
  by (simp add: word_le_nat_alt word_unat_eq_iff) arith

subsection \<open>NOTIFICATION\<close>

text \<open>
  Claim C9: decoding the two bytes of a NOTIFICATION body succeeds exactly when the pair
  (error code, error subcode) is in the validity table, and then returns that pair; every
  other pair, error code 0 or above 6 included, fails.
\<close>

theorem decodeNotificationMsg_valid_iff:
  "decodeNotificationMsg (code # sub # rest) =
     (if notification_valid code sub
      then (Inr \<lparr>ErrorCode = code, ErrorSubcode = sub\<rparr>, rest)
      else (Inl OtherError, rest))"
proof -
  have z: "sub = 0 \<longleftrightarrow> \<not> 1 \<le> sub" by (rule u8_zero_iff)
  show ?thesis
    unfolding decodeNotificationMsg_def notification_valid_def
    by (auto simp add: not_less z)
qed

subsection \<open>The header\<close>

lemma decodeHeader_eq:
  assumes len: "length marker = 16"
  shows "decodeHeader (marker @ hi # lo # ty # rest) =
     (if \<exists>x \<in> set marker. x \<noteq> 255
      then (Inl (BGPError MessageHeaderError ConnectionNotSync), hi # lo # ty # rest)
      else if be16 hi lo < MinLen \<or> be16 hi lo > MaxLen
      then (Inl (BGPError MessageHeaderError BadMessageLength), rest)
      else if ty > KeepaliveMsg \<or> ty = 0
      then (Inl (BGPError MessageHeaderError BadMessageType), rest)
      else (Inr \<lparr>Length = be16 hi lo, Type = ty\<rparr>, rest))"
proof -
  have rd: "buf_Read MarkerLen (marker @ hi # lo # ty # rest) = (Inr marker, hi # lo # ty # rest)"
    using len by (simp add: buf_Read_def)
  show ?thesis
    unfolding decodeHeader_def rd using len by simp
qed

text \<open>
  Claim C4, for a buffer that holds the 19 bytes of a header (16 marker bytes, the length
  in two bytes, big-endian, and the type), with the checks in the order of the source:
  a marker byte other than 0xFF gives MessageHeaderError/ConnectionNotSync; else a length
  outside 19..4096 gives MessageHeaderError/BadMessageLength; else a type outside 1..4
  gives MessageHeaderError/BadMessageType; otherwise the header's length and type are
  returned.
\<close>

theorem decodeHeader_checks:
  assumes len: "length marker = 16"
  shows "((\<exists>x \<in> set marker. x \<noteq> 0xFF) \<longrightarrow>
            fst (decodeHeader (marker @ hi # lo # ty # rest))
              = Inl (BGPError MessageHeaderError ConnectionNotSync))
       \<and> ((\<forall>x \<in> set marker. x = 0xFF) \<and> (be16 hi lo < 19 \<or> 4096 < be16 hi lo) \<longrightarrow>
            fst (decodeHeader (marker @ hi # lo # ty # rest))
              = Inl (BGPError MessageHeaderError BadMessageLength))
       \<and> ((\<forall>x \<in> set marker. x = 0xFF) \<and> 19 \<le> be16 hi lo \<and> be16 hi lo \<le> 4096
             \<and> (ty < 1 \<or> 4 < ty) \<longrightarrow>
            fst (decodeHeader (marker @ hi # lo # ty # rest))
              = Inl (BGPError MessageHeaderError BadMessageType))
       \<and> ((\<forall>x \<in> set marker. x = 0xFF) \<and> 19 \<le> be16 hi lo \<and> be16 hi lo \<le> 4096
             \<and> 1 \<le> ty \<and> ty \<le> 4 \<longrightarrow>
            decodeHeader (marker @ hi # lo # ty # rest)
              = (Inr \<lparr>Length = be16 hi lo, Type = ty\<rparr>, rest))
       \<and> unat (be16 hi lo) = 256 * unat hi + unat lo"
proof (intro conjI impI)
  assume "\<exists>x \<in> set marker. x \<noteq> 0xFF"
  then show "fst (decodeHeader (marker @ hi # lo # ty # rest))
      = Inl (BGPError MessageHeaderError ConnectionNotSync)"
    by (simp add: decodeHeader_eq [OF len])
next
  assume "(\<forall>x \<in> set marker. x = 0xFF) \<and> (be16 hi lo < 19 \<or> 4096 < be16 hi lo)"
  then show "fst (decodeHeader (marker @ hi # lo # ty # rest))
      = Inl (BGPError MessageHeaderError BadMessageLength)"
    by (simp add: decodeHeader_eq [OF len])
next
  assume a: "(\<forall>x \<in> set marker. x = 0xFF) \<and> 19 \<le> be16 hi lo \<and> be16 hi lo \<le> 4096
      \<and> (ty < 1 \<or> 4 < ty)"
  then have "ty > 4 \<or> ty = 0" by (auto simp: word_less_1)
  with a show "fst (decodeHeader (marker @ hi # lo # ty # rest))
      = Inl (BGPError MessageHeaderError BadMessageType)"
    by (simp add: decodeHeader_eq [OF len] not_less [symmetric])
next
  assume a: "(\<forall>x \<in> set marker. x = 0xFF) \<and> 19 \<le> be16 hi lo \<and> be16 hi lo \<le> 4096
      \<and> 1 \<le> ty \<and> ty \<le> 4"
  then have "\<not> (ty > 4 \<or> ty = 0)" by (auto simp: u8_zero_iff)
  with a show "decodeHeader (marker @ hi # lo # ty # rest)
      = (Inr \<lparr>Length = be16 hi lo, Type = ty\<rparr>, rest)"
    by (simp add: decodeHeader_eq [OF len] not_less [symmetric])
next
  show "unat (be16 hi lo) = 256 * unat hi + unat lo" by (rule unat_be16)
qed

text \<open>C4 on the headers of the specification's scenario S4 and on four broken ones.\<close>

theorem decodeHeader_checks_witness:
  "length (replicate 16 (255 :: uint8)) = 16
   \<and> decodeHeader (replicate 16 255 @ [0, 19, 4]) = (Inr \<lparr>Length = 19, Type = KeepaliveMsg\<rparr>, [])
   \<and> fst (decodeHeader (replicate 15 255 @ [2, 0, 19, 4]))
        = Inl (BGPError MessageHeaderError ConnectionNotSync)
   \<and> fst (decodeHeader (replicate 16 255 @ [0, 18, 4]))
        = Inl (BGPError MessageHeaderError BadMessageLength)
   \<and> fst (decodeHeader (replicate 16 255 @ [16, 1, 4]))
        = Inl (BGPError MessageHeaderError BadMessageLength)
   \<and> fst (decodeHeader (replicate 16 255 @ [0, 19, 5]))
        = Inl (BGPError MessageHeaderError BadMessageType)
   \<and> fst (decodeHeader (replicate 16 255 @ [0, 19, 0]))
        = Inl (BGPError MessageHeaderError BadMessageType)"
proof -
  have l: "length (replicate 16 (255 :: uint8)) = 16"
    and l': "length (replicate 15 (255 :: uint8) @ [2]) = 16" by simp_all
  have v: "be16 0 19 = 19" "be16 0 18 = 18" "be16 16 1 = 4097"
    by (simp_all add: be16_def)
  have 1: "decodeHeader (replicate 16 255 @ [0, 19, 4]) = (Inr \<lparr>Length = 19, Type = KeepaliveMsg\<rparr>, [])"
    using decodeHeader_checks [OF l, of 0 19 4 "[]"] by (simp add: v)
  have 2: "fst (decodeHeader (replicate 15 255 @ [2, 0, 19, 4]))
        = Inl (BGPError MessageHeaderError ConnectionNotSync)"
    using decodeHeader_checks [OF l', of 0 19 4 "[]"] by simp
  have 3: "fst (decodeHeader (replicate 16 255 @ [0, 18, 4]))
        = Inl (BGPError MessageHeaderError BadMessageLength)"
    using decodeHeader_checks [OF l, of 0 18 4 "[]"] by (simp add: v)
  have 4: "fst (decodeHeader (replicate 16 255 @ [16, 1, 4]))
        = Inl (BGPError MessageHeaderError BadMessageLength)"
    using decodeHeader_checks [OF l, of 16 1 4 "[]"] by (simp add: v)
  have 5: "fst (decodeHeader (replicate 16 255 @ [0, 19, 5]))
        = Inl (BGPError MessageHeaderError BadMessageType)"
    using decodeHeader_checks [OF l, of 0 19 5 "[]"] by (simp add: v)
  have 6: "fst (decodeHeader (replicate 16 255 @ [0, 19, 0]))
        = Inl (BGPError MessageHeaderError BadMessageType)"
    using decodeHeader_checks [OF l, of 0 19 0 "[]"] by (simp add: v)
  show ?thesis using l 1 2 3 4 5 6 by blast
qed

text \<open>C9 at Cease/0 and UpdateMessageError/11 (valid) and at 2/5, 0/0 and 7/0 (invalid).\<close>

theorem decodeNotificationMsg_valid_iff_witness:
  "notification_valid 6 0 \<and> decodeNotificationMsg [6, 0] = (Inr \<lparr>ErrorCode = 6, ErrorSubcode = 0\<rparr>, [])
   \<and> \<not> notification_valid 2 5 \<and> decodeNotificationMsg [2, 5] = (Inl OtherError, [])
   \<and> \<not> notification_valid 0 0 \<and> decodeNotificationMsg [0, 0] = (Inl OtherError, [])
   \<and> \<not> notification_valid 7 0 \<and> decodeNotificationMsg [7, 0] = (Inl OtherError, [])
   \<and> notification_valid 3 11 \<and> decodeNotificationMsg [3, 11] = (Inr \<lparr>ErrorCode = 3, ErrorSubcode = 11\<rparr>, [])"
  using decodeNotificationMsg_valid_iff [of 6 0 "[]"] decodeNotificationMsg_valid_iff [of 2 5 "[]"]
    decodeNotificationMsg_valid_iff [of 0 0 "[]"] decodeNotificationMsg_valid_iff [of 7 0 "[]"]
    decodeNotificationMsg_valid_iff [of 3 11 "[]"]
  by (simp add: notification_valid_def)

subsection \<open>NLRI\<close>

lemma copy_addr_4: "copy_addr (Suc (Suc (Suc (Suc 0)))) t a buf = (Inr a, buf)"
  by (subst copy_addr.simps) simp

lemma copy_addr_3:
  "copy_addr (Suc (Suc (Suc 0))) t a buf =
     (if 3 < t then (case decode_u8 buf of (Inl e, b) \<Rightarrow> (Inl e, b)
                      | (Inr x, b) \<Rightarrow> (Inr (a[Suc (Suc (Suc 0)) := x]), b))
      else (Inr (a[Suc (Suc (Suc 0)) := 0]), buf))"
  by (subst copy_addr.simps) (simp add: copy_addr_4 split: prod.splits sum.splits)

lemma copy_addr_2:
  "copy_addr (Suc (Suc 0)) t a buf =
     (if 2 < t then (case decode_u8 buf of (Inl e, b) \<Rightarrow> (Inl e, b)
                      | (Inr x, b) \<Rightarrow> copy_addr (Suc (Suc (Suc 0))) t (a[Suc (Suc 0) := x]) b)
      else copy_addr (Suc (Suc (Suc 0))) t (a[Suc (Suc 0) := 0]) buf)"
  by (subst copy_addr.simps) (simp split: prod.splits sum.splits)

lemma copy_addr_1:
  "copy_addr (Suc 0) t a buf =
     (if 1 < t then (case decode_u8 buf of (Inl e, b) \<Rightarrow> (Inl e, b)
                      | (Inr x, b) \<Rightarrow> copy_addr (Suc (Suc 0)) t (a[Suc 0 := x]) b)
      else copy_addr (Suc (Suc 0)) t (a[Suc 0 := 0]) buf)"
  by (subst copy_addr.simps) (simp split: prod.splits sum.splits)

lemma copy_addr_0:
  "copy_addr 0 t a buf =
     (if 0 < t then (case decode_u8 buf of (Inl e, b) \<Rightarrow> (Inl e, b)
                      | (Inr x, b) \<Rightarrow> copy_addr (Suc 0) t (a[0 := x]) b)
      else copy_addr (Suc 0) t (a[0 := 0]) buf)"
  by (subst copy_addr.simps) (simp split: prod.splits sum.splits)

lemmas copy_addr_unroll = copy_addr_0 copy_addr_1 copy_addr_2 copy_addr_3

lemma decode_u8_Nil [simp]: "decode_u8 [] = (Inl OtherError, [])"
  by (simp add: decode_u8_def)

text \<open>
  The address loop reads the first \<open>min 4 toCopy\<close> bytes of the buffer and leaves the other
  bytes of the address zero.
\<close>

lemma copy_addr_spec:
  "copy_addr 0 t [0, 0, 0, 0] buf =
     (if min 4 (unat t) \<le> length buf
      then (Inr (take (min 4 (unat t)) buf @ replicate (4 - min 4 (unat t)) 0),
            drop (min 4 (unat t)) buf)
      else (Inl OtherError, []))"
proof -
  consider "unat t = 0" | "unat t = 1" | "unat t = 2" | "unat t = 3" | "4 \<le> unat t" by linarith
  then show ?thesis
  proof cases
    case 1
    then have "\<not> 0 < t" "\<not> 1 < t" "\<not> 2 < t" "\<not> 3 < t" by (simp_all add: word_less_nat_alt)
    with 1 show ?thesis by (simp add: copy_addr_unroll eval_nat_numeral)
  next
    case 2
    then have "0 < t" "\<not> 1 < t" "\<not> 2 < t" "\<not> 3 < t" by (simp_all add: word_less_nat_alt)
    with 2 show ?thesis
      by (cases buf) (simp_all add: copy_addr_unroll eval_nat_numeral)
  next
    case 3
    then have "0 < t" "1 < t" "\<not> 2 < t" "\<not> 3 < t" by (simp_all add: word_less_nat_alt)
    with 3 show ?thesis
      by (cases buf; cases "tl buf") (auto simp add: copy_addr_unroll eval_nat_numeral)
  next
    case 4
    then have "0 < t" "1 < t" "2 < t" "\<not> 3 < t" by (simp_all add: word_less_nat_alt)
    with 4 show ?thesis
      by (cases buf; cases "tl buf"; cases "tl (tl buf)") (auto simp add: copy_addr_unroll eval_nat_numeral)
  next
    case 5
    then have "0 < t" "1 < t" "2 < t" "3 < t" by (simp_all add: word_less_nat_alt)
    with 5 show ?thesis
      by (cases buf; cases "tl buf"; cases "tl (tl buf)"; cases "tl (tl (tl buf))")
        (auto simp add: copy_addr_unroll eval_nat_numeral)
  qed
qed

lemma unat_toCopy_of: "unat (toCopy_of n) = (unat n + 7) div 8"
proof -
  have "unat n < 256" using unsigned_less [of n, where 'a = nat] by simp
  then have "(unat n + 7) div 8 < 256" by simp
  then show ?thesis by (simp add: toCopy_of_def unat_of_nat)
qed

lemma decodeNLRI_eq:
  "decodeNLRI (n # r) =
     (if min 4 ((unat n + 7) div 8) \<le> length r
      then (Inr (\<lparr>IP = take (min 4 ((unat n + 7) div 8)) r
                       @ replicate (4 - min 4 ((unat n + 7) div 8)) 0, Pfxlen = n\<rparr>,
                 toCopy_of n + 1),
            drop (min 4 ((unat n + 7) div 8)) r)
      else (Inl OtherError, []))"
  by (simp add: decodeNLRI_def Let_def copy_addr_spec unat_toCopy_of decode_u8_def)

lemma decodeNLRI_Nil: "decodeNLRI [] = (Inl OtherError, [])"
  by (simp add: decodeNLRI_def)

lemma decodeNLRI_wire:
  assumes d: "decodeNLRI buf = (Inr (n, c), b')" and le: "Pfxlen n \<le> 32"
  shows "buf = nlri_wire n @ b'" and "unat c = length (nlri_wire n)"
    and "length (IP n) = 4"
    and "length (nlri_wire n) = 1 + (unat (Pfxlen n) + 7) div 8"
    and "drop ((unat (Pfxlen n) + 7) div 8) (IP n) = replicate (4 - (unat (Pfxlen n) + 7) div 8) 0"
proof -
  from d obtain x r where buf: "buf = x # r" by (cases buf) (auto simp: decodeNLRI_Nil)
  define k where "k = (unat x + 7) div 8"
  from d buf have ok: "min 4 k \<le> length r"
    and n: "n = \<lparr>IP = take (min 4 k) r @ replicate (4 - min 4 k) 0, Pfxlen = x\<rparr>"
    and c: "c = toCopy_of x + 1" and b': "b' = drop (min 4 k) r"
    by (auto simp: decodeNLRI_eq k_def split: if_splits)
  have px: "Pfxlen n = x" by (simp add: n)
  with le have "unat x \<le> 32" by (simp add: word_le_nat_alt)
  then have k4: "k \<le> 4" by (simp add: k_def)
  then have m: "min 4 k = k" by simp
  have lr: "k \<le> length r" using ok m by simp
  have ip: "IP n = take k r @ replicate (4 - k) 0" by (simp add: n m)
  have w: "nlri_wire n = x # take k r"
    using lr by (simp add: nlri_wire_def px k_def [symmetric] ip)
  show "buf = nlri_wire n @ b'" by (simp add: w buf b' m)
  show "length (nlri_wire n) = 1 + (unat (Pfxlen n) + 7) div 8"
    using lr by (simp add: w px k_def [symmetric])
  have "unat (toCopy_of x) = k" by (simp add: unat_toCopy_of k_def)
  with k4 have "unat c = k + 1" by (simp add: c unat_word_ariths)
  then show "unat c = length (nlri_wire n)" using lr by (simp add: w)
  show "length (IP n) = 4" using lr k4 by (simp add: ip)
  show "drop ((unat (Pfxlen n) + 7) div 8) (IP n) = replicate (4 - (unat (Pfxlen n) + 7) div 8) 0"
    using lr by (simp add: px k_def [symmetric] ip)
qed

lemma decodeNLRIs_loop_extends:
  "decodeNLRIs_loop len p ret buf = (Inr r, b) \<Longrightarrow> \<exists>new. r = ret @ new"
proof (induction len p ret buf rule: decodeNLRIs_loop.induct)
  case (1 len p ret buf)
  show ?case
  proof (cases "p < len")
    case False
    with "1.prems" show ?thesis by (simp add: decodeNLRIs_loop.simps)
  next
    case True
    obtain q1 c1 where e: "decodeNLRI buf = (q1, c1)" by (cases "decodeNLRI buf")
    from True e "1.prems" obtain m k where q1: "q1 = Inr (m, k)"
      by (cases q1) (auto simp: decodeNLRIs_loop.simps [of len p])
    from True e q1 "1.prems"
    have "decodeNLRIs_loop len (p + ucast k) (ret @ [m]) c1 = (Inr r, b)"
      by (simp add: decodeNLRIs_loop.simps [of len p])
    from "1.IH" [OF True e [unfolded q1, symmetric] refl refl this]
    show ?thesis by auto
  qed
qed

lemma decodeNLRIs_loop_spec:
  assumes "decodeNLRIs_loop len p ret buf = (Inr ns, b')"
      and "\<forall>n \<in> set ns. Pfxlen n \<le> 32"
      and "unat p + length buf < 65536"
  shows "\<exists>new. ns = ret @ new \<and> buf = concat (map nlri_wire new) @ b'
           \<and> (p < len \<longrightarrow> new \<noteq> []
                 \<and> unat len \<le> unat p + length (concat (map nlri_wire new))
                 \<and> unat p + length (concat (map nlri_wire (butlast new))) < unat len)
           \<and> (\<not> p < len \<longrightarrow> new = [])
           \<and> (\<forall>n \<in> set new.
                 length (IP n) = 4
                 \<and> length (nlri_wire n) = 1 + (unat (Pfxlen n) + 7) div 8
                 \<and> drop ((unat (Pfxlen n) + 7) div 8) (IP n)
                     = replicate (4 - (unat (Pfxlen n) + 7) div 8) 0)"
  using assms
proof (induction len p ret buf rule: decodeNLRIs_loop.induct)
  case (1 len p ret buf)
  show ?case
  proof (cases "p < len")
    case False
    with "1.prems"(1) have "ns = ret" "b' = buf" by (simp_all add: decodeNLRIs_loop.simps)
    with False show ?thesis by simp
  next
    case True
    obtain r1 b1 where d: "decodeNLRI buf = (r1, b1)" by (cases "decodeNLRI buf")
    from True d "1.prems"(1) obtain n c where r1: "r1 = Inr (n, c)"
      by (cases r1) (auto simp: decodeNLRIs_loop.simps [of len p])
    from True d r1 "1.prems"(1)
    have rec: "decodeNLRIs_loop len (p + ucast c) (ret @ [n]) b1 = (Inr ns, b')"
      by (simp add: decodeNLRIs_loop.simps [of len p])
    from decodeNLRIs_loop_extends [OF rec] have n32: "Pfxlen n \<le> 32"
      using "1.prems"(2) by auto
    note w = decodeNLRI_wire [OF d [unfolded r1] n32]
    have lb: "length buf = length (nlri_wire n) + length b1" using w(1) by simp
    have up: "unat (p + ucast c) = unat p + length (nlri_wire n)"
      using "1.prems"(3) lb by (simp add: unat_word_ariths unat_ucast_u8_u16 w(2))
    have sz: "unat (p + ucast c) + length b1 < 65536" using "1.prems"(3) lb up by simp
    from "1.IH" [OF True d [unfolded r1, symmetric] refl refl rec "1.prems"(2) sz]
    obtain new where new: "ns = (ret @ [n]) @ new" "b1 = concat (map nlri_wire new) @ b'"
      and a: "p + ucast c < len \<longrightarrow> new \<noteq> []
            \<and> unat len \<le> unat (p + ucast c) + length (concat (map nlri_wire new))
            \<and> unat (p + ucast c) + length (concat (map nlri_wire (butlast new))) < unat len"
      and b: "\<not> p + ucast c < len \<longrightarrow> new = []"
      and e: "\<forall>n \<in> set new.
                 length (IP n) = 4
                 \<and> length (nlri_wire n) = 1 + (unat (Pfxlen n) + 7) div 8
                 \<and> drop ((unat (Pfxlen n) + 7) div 8) (IP n)
                     = replicate (4 - (unat (Pfxlen n) + 7) div 8) 0"
      by blast
    have 1: "ns = ret @ (n # new)" using new(1) by simp
    have 2: "buf = concat (map nlri_wire (n # new)) @ b'" using w(1) new(2) by simp
    have 3: "unat len \<le> unat p + length (concat (map nlri_wire (n # new)))
        \<and> unat p + length (concat (map nlri_wire (butlast (n # new)))) < unat len"
    proof (cases "p + ucast c < len")
      case t: True
      with a up show ?thesis by (auto simp: word_less_nat_alt)
    next
      case f: False
      with b have "new = []" by simp
      with f up True show ?thesis by (simp add: word_less_nat_alt)
    qed
    have 4: "\<forall>n \<in> set (n # new).
                 length (IP n) = 4
                 \<and> length (nlri_wire n) = 1 + (unat (Pfxlen n) + 7) div 8
                 \<and> drop ((unat (Pfxlen n) + 7) div 8) (IP n)
                     = replicate (4 - (unat (Pfxlen n) + 7) div 8) 0"
      using e w(3,4,5) by simp
    show ?thesis
      using True 1 2 3 4 by (intro exI [of _ "n # new"]) simp
  qed
qed

lemma decodeNLRIs_not_longer: "decodeNLRIs_loop len p ret buf = (r, b) \<Longrightarrow> length b \<le> length buf"
proof (induction len p ret buf rule: decodeNLRIs_loop.induct)
  case (1 len p ret buf)
  show ?case
  proof (cases "p < len")
    case False
    with "1.prems" show ?thesis by (simp add: decodeNLRIs_loop.simps)
  next
    case True
    obtain r1 b1 where d: "decodeNLRI buf = (r1, b1)" by (cases "decodeNLRI buf")
    show ?thesis
    proof (cases r1)
      case (Inl e)
      with True d "1.prems" have "b = b1" by (simp add: decodeNLRIs_loop.simps [of len p])
      moreover have "length b1 \<le> length buf"
        using d by (cases buf) (auto simp: decodeNLRI_Nil decodeNLRI_eq split: if_splits)
      ultimately show ?thesis by simp
    next
      case (Inr y)
      obtain n c where y: "y = (n, c)" by (cases y)
      from True d Inr y "1.prems"
      have "decodeNLRIs_loop len (p + ucast c) (ret @ [n]) b1 = (r, b)"
        by (simp add: decodeNLRIs_loop.simps [of len p])
      from "1.IH" [OF True d [unfolded Inr y, symmetric] refl refl this]
        decodeNLRI_shorter [OF d [unfolded Inr y]]
      show ?thesis by simp
    qed
  qed
qed

lemma decodePathAttrs_loop_not_longer:
  "decodePathAttrs_loop tpal p ret buf = (r, b) \<Longrightarrow> length b \<le> length buf"
proof (induction tpal p ret buf rule: decodePathAttrs_loop.induct)
  case (1 tpal p ret buf)
  show ?case
  proof (cases "p < tpal")
    case False
    with "1.prems" show ?thesis by (simp add: decodePathAttrs_loop.simps)
  next
    case True
    obtain r1 b1 where d: "decodePathAttr p buf = (r1, b1)" by (cases "decodePathAttr p buf")
    show ?thesis
    proof (cases r1)
      case (Inl e)
      with True d "1.prems" have b: "b = b1" by (simp add: decodePathAttrs_loop.simps [of tpal p])
      have "length b1 \<le> length buf"
        using d [unfolded Inl]
        by (auto simp: decodePathAttr_def decodePathAttrFlags_def Let_def
            split: prod.splits sum.splits if_splits
            dest!: decode_u8_not_longer setLength_not_longer decodeASPath_not_longer
              decodeNextHop_not_longer decodeMED_not_longer decodeLocalPref_not_longer
              decodeAggregator_not_longer)
      with b show ?thesis by simp
    next
      case (Inr y)
      obtain pa p' where y: "y = (pa, p')" by (cases y)
      from True d Inr y "1.prems"
      have "decodePathAttrs_loop tpal p' (ret @ [pa]) b1 = (r, b)"
        by (simp add: decodePathAttrs_loop.simps [of tpal p])
      from "1.IH" [OF True d [unfolded Inr y, symmetric] refl refl this]
        decodePathAttr_shorter [OF d [unfolded Inr y]]
      show ?thesis by simp
    qed
  qed
qed

text \<open>
  The NLRI part of an UPDATE.  When \<open>decodeUpdateMsg\<close> succeeds on a buffer shorter than
  65536 bytes (every BGP message is at most 4096 bytes) and all announced prefixes have a
  length of at most 32: the buffer is read as the withdrawn-routes length, the withdrawn
  routes, the total path attribute length and the path attributes, and the bytes that the
  path attributes leave are the wire forms of the decoded NLRIs, one after the other,
  followed by what \<open>decodeUpdateMsg\<close> leaves.  With \<open>B = len - 4 - TotalPathAttrLen -
  WithdrawnRoutesLen\<close> computed in 16 bits (\<open>len\<close> is the message length minus 19), nothing
  is parsed when \<open>B = 0\<close>, and otherwise whole NLRIs are parsed until their bytes reach
  \<open>B\<close>: at least \<open>B\<close> bytes, and fewer than \<open>B\<close> before the last NLRI.  Each NLRI
  takes its length byte and \<open>ceil(pfxlen / 8)\<close> address bytes from the wire, and the
  remaining bytes of its four-byte address are zero.
\<close>

lemma decodeUpdateMsg_NLRI_part:
  assumes dec: "decodeUpdateMsg buf len = (Inr msg, buf')"
      and sz: "length buf < 65536"
      and pl: "\<forall>n \<in> set (NLRIs msg). Pfxlen n \<le> 32"
  shows "\<exists>b1 b2 b3 b4.
             decode_u16 buf = (Inr (WithdrawnRoutesLen msg), b1)
           \<and> decodeNLRIs b1 (WithdrawnRoutesLen msg) = (Inr (WithdrawnRoutes msg), b2)
           \<and> decode_u16 b2 = (Inr (TotalPathAttrLen msg), b3)
           \<and> decodePathAttrs b3 (TotalPathAttrLen msg) = (Inr (PathAttributes msg), b4)
           \<and> b4 = concat (map nlri_wire (NLRIs msg)) @ buf'
           \<and> (nlriLen_of len (TotalPathAttrLen msg) (WithdrawnRoutesLen msg) = 0
                 \<longrightarrow> NLRIs msg = [])
           \<and> (0 < nlriLen_of len (TotalPathAttrLen msg) (WithdrawnRoutesLen msg)
                 \<longrightarrow> NLRIs msg \<noteq> []
                   \<and> unat (nlriLen_of len (TotalPathAttrLen msg) (WithdrawnRoutesLen msg))
                       \<le> length (concat (map nlri_wire (NLRIs msg)))
                   \<and> length (concat (map nlri_wire (butlast (NLRIs msg))))
                       < unat (nlriLen_of len (TotalPathAttrLen msg) (WithdrawnRoutesLen msg)))
           \<and> (\<forall>n \<in> set (NLRIs msg).
                 length (IP n) = 4
                 \<and> length (nlri_wire n) = 1 + (unat (Pfxlen n) + 7) div 8
                 \<and> drop ((unat (Pfxlen n) + 7) div 8) (IP n)
                     = replicate (4 - (unat (Pfxlen n) + 7) div 8) 0)"
proof -
  from dec obtain wrl b1 where s1: "decode_u16 buf = (Inr wrl, b1)"
    by (auto simp: decodeUpdateMsg_def split: prod.splits sum.splits)
  from dec s1 obtain wr b2 where s2: "decodeNLRIs b1 wrl = (Inr wr, b2)"
    by (auto simp: decodeUpdateMsg_def split: prod.splits sum.splits)
  from dec s1 s2 obtain tpal b3 where s3: "decode_u16 b2 = (Inr tpal, b3)"
    by (auto simp: decodeUpdateMsg_def split: prod.splits sum.splits)
  from dec s1 s2 s3 obtain pas b4 where s4: "decodePathAttrs b3 tpal = (Inr pas, b4)"
    by (auto simp: decodeUpdateMsg_def split: prod.splits sum.splits)
  define B where "B = nlriLen_of len tpal wrl"
  have l4: "length b4 \<le> length buf"
    using decode_u16_not_longer [OF s1] decodeNLRIs_not_longer [OF s2 [unfolded decodeNLRIs_def]]
      decode_u16_not_longer [OF s3] decodePathAttrs_loop_not_longer [OF s4 [unfolded decodePathAttrs_def]]
    by simp
  have fields: "WithdrawnRoutesLen msg = wrl" "TotalPathAttrLen msg = tpal" "PathAttributes msg = pas"
      "WithdrawnRoutes msg = wr"
    using dec s1 s2 s3 s4
    by (auto simp: decodeUpdateMsg_def Let_def split: prod.splits sum.splits if_splits)
  show ?thesis
  proof (cases "0 < B")
    case False
    then have B0: "B = 0" by (simp add: word_neq_0_conv [symmetric])
    with dec s1 s2 s3 s4 have "NLRIs msg = []" "buf' = b4"
      by (auto simp: decodeUpdateMsg_def Let_def B_def split: prod.splits sum.splits if_splits)
    with s1 s2 s3 s4 B0 show ?thesis
      unfolding fields B_def [symmetric]
      by (intro exI [of _ b1] exI [of _ b2] exI [of _ b3] exI [of _ b4]) simp
  next
    case True
    with dec s1 s2 s3 s4 have run: "decodeNLRIs_loop B 0 [] b4 = (Inr (NLRIs msg), buf')"
      by (auto simp: decodeUpdateMsg_def Let_def B_def decodeNLRIs_def
          split: prod.splits sum.splits if_splits)
    have "unat (0 :: uint16) + length b4 < 65536" using l4 sz by simp
    from decodeNLRIs_loop_spec [OF run pl this] True
    have "b4 = concat (map nlri_wire (NLRIs msg)) @ buf'"
      and "NLRIs msg \<noteq> []"
      and "unat B \<le> length (concat (map nlri_wire (NLRIs msg)))"
      and "length (concat (map nlri_wire (butlast (NLRIs msg)))) < unat B"
      and "\<forall>n \<in> set (NLRIs msg).
                 length (IP n) = 4
                 \<and> length (nlri_wire n) = 1 + (unat (Pfxlen n) + 7) div 8
                 \<and> drop ((unat (Pfxlen n) + 7) div 8) (IP n)
                     = replicate (4 - (unat (Pfxlen n) + 7) div 8) 0"
      by auto
    with s1 s2 s3 s4 True show ?thesis
      unfolding fields B_def [symmetric]
      by (intro exI [of _ b1] exI [of _ b2] exI [of _ b3] exI [of _ b4]) simp
  qed
qed

text \<open>
  An UPDATE that announces 11.0.0.0/8 and 192.168.0.0/16: \<open>B = 9 - 4 = 5\<close>, the path
  attributes leave the five bytes 8, 11, 16, 192, 168, and these are parsed.
\<close>

lemma decodeUpdateMsg_NLRI_part_example:
  "decodeUpdateMsg [0, 0, 0, 0, 8, 11, 16, 192, 168] 9
     = (Inr \<lparr>WithdrawnRoutesLen = 0, WithdrawnRoutes = [], TotalPathAttrLen = 0,
             PathAttributes = [],
             NLRIs = [\<lparr>IP = [11, 0, 0, 0], Pfxlen = 8\<rparr>, \<lparr>IP = [192, 168, 0, 0], Pfxlen = 16\<rparr>]\<rparr>, [])
   \<and> length [0, 0, 0, 0, 8, 11, 16, 192, 168 :: uint8] < 65536
   \<and> list_all (\<lambda>n. Pfxlen n \<le> 32)
        [\<lparr>IP = [11, 0, 0, 0], Pfxlen = 8\<rparr>, \<lparr>IP = [192, 168, 0, 0], Pfxlen = 16\<rparr>]
   \<and> nlriLen_of 9 0 0 = 5
   \<and> decodePathAttrs [8, 11, 16, 192, 168] 0 = (Inr [], [8, 11, 16, 192, 168])
   \<and> [8, 11, 16, 192, 168]
       = concat (map nlri_wire [\<lparr>IP = [11, 0, 0, 0], Pfxlen = 8\<rparr>, \<lparr>IP = [192, 168, 0, 0], Pfxlen = 16\<rparr>])
   \<and> unat (nlriLen_of 9 0 0)
       \<le> length (concat (map nlri_wire
            [\<lparr>IP = [11, 0, 0, 0], Pfxlen = 8\<rparr>, \<lparr>IP = [192, 168, 0, 0], Pfxlen = 16\<rparr>]))
   \<and> length (concat (map nlri_wire (butlast
            [\<lparr>IP = [11, 0, 0, 0], Pfxlen = 8\<rparr>, \<lparr>IP = [192, 168, 0, 0], Pfxlen = 16\<rparr>])))
       < unat (nlriLen_of 9 0 0)"
proof -
  define M where "M = \<lparr>WithdrawnRoutesLen = 0, WithdrawnRoutes = [], TotalPathAttrLen = 0,
             PathAttributes = [],
             NLRIs = [\<lparr>IP = [11, 0, 0, 0], Pfxlen = 8\<rparr>, \<lparr>IP = [192, 168, 0, 0], Pfxlen = 16\<rparr>]\<rparr>"
  have dec: "decodeUpdateMsg [0, 0, 0, 0, 8, 11, 16, 192, 168] 9 = (Inr M, [])"
    unfolding M_def by code_simp
  have sz: "length [0, 0, 0, 0, 8, 11, 16, 192, 168 :: uint8] < 65536" by simp
  have pl: "\<forall>n \<in> set (NLRIs M). Pfxlen n \<le> 32" by (simp add: M_def)
  have B: "nlriLen_of 9 0 0 = 5" by (simp add: nlriLen_of_def)
  have p: "0 < nlriLen_of 9 (TotalPathAttrLen M) (WithdrawnRoutesLen M)"
    by (simp add: M_def B)
  from decodeUpdateMsg_NLRI_part [OF dec sz pl] p obtain b1 b2 b3 b4 where
    "decodePathAttrs b3 (TotalPathAttrLen M) = (Inr (PathAttributes M), b4)"
    and w: "b4 = concat (map nlri_wire (NLRIs M)) @ []"
    and le: "unat (nlriLen_of 9 (TotalPathAttrLen M) (WithdrawnRoutesLen M))
        \<le> length (concat (map nlri_wire (NLRIs M)))"
    and lt: "length (concat (map nlri_wire (butlast (NLRIs M))))
        < unat (nlriLen_of 9 (TotalPathAttrLen M) (WithdrawnRoutesLen M))"
    by blast
  have c: "[8, 11, 16, 192, 168]
       = concat (map nlri_wire [\<lparr>IP = [11, 0, 0, 0], Pfxlen = 8\<rparr>, \<lparr>IP = [192, 168, 0, 0], Pfxlen = 16\<rparr>])"
    by (simp add: nlri_wire_def)
  have pa: "decodePathAttrs [8, 11, 16, 192, 168] 0 = (Inr [], [8, 11, 16, 192, 168])"
    by code_simp
  show ?thesis
    using dec sz B c pa le lt unfolding M_def by simp
qed

text \<open>
  An NLRI whose length byte exceeds 32 is not rejected: its address is decoded from four
  bytes, while the byte count that \<open>decodeNLRI\<close> returns is \<open>ceil(pfxlen / 8) + 1\<close>.
\<close>

lemma decodeNLRI_pfxlen_above_32:
  "decodeNLRI [40, 1, 2, 3, 4, 5] = (Inr (\<lparr>IP = [1, 2, 3, 4], Pfxlen = 40\<rparr>, 6), [5])
   \<and> (unat (40 :: uint8) + 7) div 8 = 5"
  by code_simp

text \<open>
  Claim C6 takes the lengths for authoritative: the NLRI bytes parsed after the path
  attributes are \<open>total-message-length - 19 - 4 - total-path-attr-len -
  withdrawn-routes-len\<close> many.  That needs the path attributes to take from the buffer
  the bytes that \<open>decodePathAttrs\<close> counts for them.  The arms for ORIGIN, NEXT_HOP, MED,
  LOCAL_PREF and AGGREGATOR end in \<open>dumpNBytes\<close>, which drains what the declared length
  covers beyond the value; the arm for ATOMIC_AGGREGATE does nothing, and \<open>p +=
  uint16(pa.Length)\<close> counts the declared length all the same.

  The message of 28 bytes below declares 4 bytes of path attributes: an ATOMIC_AGGREGATE
  with a length byte of 1 and the value byte 8.  The formula leaves \<open>28 - 19 - 4 - 4 - 0 =
  1\<close> byte for the NLRI part, the last byte, 10.  The decoder takes three bytes for the
  attribute, starts the NLRIs at the value byte and parses two bytes, 8 and 10, as
  10.0.0.0/8.  An ORIGIN with a length byte of 2 in the same place is drained to its
  declared end.
\<close>

theorem Decode_AtomicAggr_value_parsed_as_NLRI:
  "Decode (replicate 16 255 @ [0, 28, 2, 0, 0, 0, 4, 64, 6, 1, 8, 10])
     = (Inr \<lparr>Header = \<lparr>Length = 28, Type = UpdateMsg\<rparr>,
             Body = UpdateBody \<lparr>WithdrawnRoutesLen = 0, WithdrawnRoutes = [],
               TotalPathAttrLen = 4,
               PathAttributes = [\<lparr>AttrLength = 1, Optional = False, Transitive = True,
                 Partial = False, ExtendedLength = False, TypeCode = AtomicAggrAttr,
                 Value = NoValue\<rparr>],
               NLRIs = [\<lparr>IP = [10, 0, 0, 0], Pfxlen = 8\<rparr>]\<rparr>\<rparr>, [])
   \<and> length (replicate 16 255 @ [0, 28, 2, 0, 0, 0, 4, 64, 6, 1, 8, 10 :: uint8]) = 28
   \<and> nlriLen_of (28 - 19) 4 0 = 1
   \<and> decodePathAttrs [64, 6, 1, 8, 10] 4
     = (Inr [\<lparr>AttrLength = 1, Optional = False, Transitive = True,
                 Partial = False, ExtendedLength = False, TypeCode = AtomicAggrAttr,
                 Value = NoValue\<rparr>], [8, 10])
   \<and> decodeNLRIs [8, 10] 1 = (Inr [\<lparr>IP = [10, 0, 0, 0], Pfxlen = 8\<rparr>], [])
   \<and> length (concat (map nlri_wire [\<lparr>IP = [10, 0, 0, 0], Pfxlen = 8\<rparr>])) = 2
   \<and> decodePathAttrs [64, 1, 2, 7, 8, 10] 5
     = (Inr [\<lparr>AttrLength = 2, Optional = False, Transitive = True,
                 Partial = False, ExtendedLength = False, TypeCode = OriginAttr,
                 Value = OriginValue 7\<rparr>], [10])"
  by code_simp

subsection \<open>The NLRI length wraps around\<close>


lemma replicate4: "replicate 4 x = [x, x, x, x]"
  by (simp add: eval_nat_numeral)

lemma toCopy_of_zero: "toCopy_of 0 = 0"
  by (simp add: toCopy_of_def)

lemma decodeNLRI_zero:
  "decodeNLRI (0 # rest) = (Inr (\<lparr>IP = [0, 0, 0, 0], Pfxlen = 0\<rparr>, 1), rest)"
  using decodeNLRI_eq [of 0 rest] by (simp add: toCopy_of_zero replicate4)

lemma decodeNLRIs_loop_zero_step:
  "p < len \<Longrightarrow> decodeNLRIs_loop len p ret (0 # rest)
     = decodeNLRIs_loop len (p + 1) (ret @ [\<lparr>IP = [0, 0, 0, 0], Pfxlen = 0\<rparr>]) rest"
  by (subst decodeNLRIs_loop.simps) (simp add: decodeNLRI_zero)

lemma decodeNLRIs_loop_zeros:
  "unat p + k = unat len \<Longrightarrow>
   decodeNLRIs_loop len p ret (replicate k 0 @ rest)
     = (Inr (ret @ replicate k \<lparr>IP = [0, 0, 0, 0], Pfxlen = 0\<rparr>), rest)"
proof (induction k arbitrary: p ret)
  case 0
  then have "\<not> p < len" by (simp add: word_less_nat_alt)
  then show ?case by (simp add: decodeNLRIs_loop.simps)
next
  case (Suc k)
  then have lt: "p < len" by (simp add: word_less_nat_alt)
  have "unat len < 65536" using unsigned_less [of len, where 'a = nat] by simp
  with Suc.prems have "unat p + 1 < 65536" by simp
  then have "unat (p + 1) = unat p + 1" by (simp add: unat_word_ariths)
  with Suc.prems have "unat (p + 1) + k = unat len" by simp
  from Suc.IH [OF this, of "ret @ [\<lparr>IP = [0, 0, 0, 0], Pfxlen = 0\<rparr>]"]
  have "decodeNLRIs_loop len (p + 1) (ret @ [\<lparr>IP = [0, 0, 0, 0], Pfxlen = 0\<rparr>]) (replicate k 0 @ rest)
      = (Inr (ret @ \<lparr>IP = [0, 0, 0, 0], Pfxlen = 0\<rparr> # replicate k \<lparr>IP = [0, 0, 0, 0], Pfxlen = 0\<rparr>), rest)"
    by simp
  then show ?case
    using decodeNLRIs_loop_zero_step [OF lt, of ret "replicate k 0 @ rest"] by simp
qed

lemma decodeNLRIs_loop_done: "\<not> p < len \<Longrightarrow> decodeNLRIs_loop len p ret b = (Inr ret, b)"
  by (simp add: decodeNLRIs_loop.simps)

lemma decodePathAttrs_zero: "decodePathAttrs b 0 = (Inr [], b)"
  by (simp add: decodePathAttrs_def decodePathAttrs_loop.simps)

lemma be16_zero: "be16 0 0 = 0"
  by (simp add: be16_def)

lemma decodeUpdateMsg_zeros:
  assumes k: "unat (nlriLen_of len 0 0) = k" and pos: "0 < k"
  shows "decodeUpdateMsg (0 # 0 # 0 # 0 # replicate k 0) len
     = (Inr \<lparr>WithdrawnRoutesLen = 0, WithdrawnRoutes = [], TotalPathAttrLen = 0,
             PathAttributes = [],
             NLRIs = replicate k \<lparr>IP = [0, 0, 0, 0], Pfxlen = 0\<rparr>\<rparr>, [])"
proof -
  have B: "0 < nlriLen_of len 0 0" using k pos by (simp add: word_less_nat_alt)
  have z: "decodeNLRIs_loop (nlriLen_of len 0 0) 0 [] (replicate k 0 @ [])
      = (Inr ([] @ replicate k \<lparr>IP = [0, 0, 0, 0], Pfxlen = 0\<rparr>), [])"
    by (rule decodeNLRIs_loop_zeros) (simp add: k)
  have w: "decodeNLRIs (0 # 0 # replicate k 0) 0 = (Inr [], 0 # 0 # replicate k 0)"
    by (simp add: decodeNLRIs_def decodeNLRIs_loop_done)
  have n: "decodeNLRIs (replicate k 0) (nlriLen_of len 0 0)
      = (Inr (replicate k \<lparr>IP = [0, 0, 0, 0], Pfxlen = 0\<rparr>), [])"
    using z by (simp add: decodeNLRIs_def)
  show ?thesis
    unfolding decodeUpdateMsg_def
    by (simp add: decode_u16_Cons be16_zero w decodePathAttrs_zero n B)
qed

lemma Decode_update_zeros:
  assumes len: "19 \<le> be16 hi lo" "be16 hi lo \<le> 4096"
      and k: "unat (nlriLen_of (be16 hi lo - 19) 0 0) = k" and pos: "0 < k"
  shows "Decode (replicate 16 255 @ hi # lo # 2 # 0 # 0 # 0 # 0 # replicate k 0)
     = (Inr \<lparr>Header = \<lparr>Length = be16 hi lo, Type = UpdateMsg\<rparr>,
             Body = UpdateBody \<lparr>WithdrawnRoutesLen = 0, WithdrawnRoutes = [],
               TotalPathAttrLen = 0, PathAttributes = [],
               NLRIs = replicate k \<lparr>IP = [0, 0, 0, 0], Pfxlen = 0\<rparr>\<rparr>\<rparr>, [])"
proof -
  have h: "decodeHeader (replicate 16 255 @ hi # lo # 2 # 0 # 0 # 0 # 0 # replicate k 0)
      = (Inr \<lparr>Length = be16 hi lo, Type = UpdateMsg\<rparr>, 0 # 0 # 0 # 0 # replicate k 0)"
    using len by (subst decodeHeader_eq) (simp_all add: not_less [symmetric])
  show ?thesis
    unfolding Decode_def h
    by (simp add: decodeMsgBody_def decodeUpdateMsg_zeros [OF k pos])
qed

text \<open>
  Claim C10.  An UPDATE whose header gives a length of 22 has a body length of 3, less than
  the 4 bytes of the two length fields: \<open>3 - 4 - 0 - 0\<close> wraps to 65535, the decoder does
  not reject the lengths, and with 65535 more bytes in the buffer (each a prefix of length
  0) it decodes 65535 NLRIs, through \<open>Decode\<close> as well.  With honest framing the same
  happens when a declared length exceeds the bytes it covers: an ATOMIC_AGGREGATE of
  declared length 200 in a body of 7 bytes gives an NLRI length of 65336, and decoding
  fails only because the buffer ends.
\<close>

theorem decodeUpdateMsg_nlriLen_wraps:
  "unat (3 :: uint16) < unat (0 :: uint16) + unat (0 :: uint16) + 4
   \<and> nlriLen_of 3 0 0 = 65535
   \<and> decodeUpdateMsg (0 # 0 # 0 # 0 # replicate 65535 0) 3
     = (Inr \<lparr>WithdrawnRoutesLen = 0, WithdrawnRoutes = [], TotalPathAttrLen = 0,
             PathAttributes = [],
             NLRIs = replicate 65535 \<lparr>IP = [0, 0, 0, 0], Pfxlen = 0\<rparr>\<rparr>, [])
   \<and> Decode (replicate 16 255 @ 0 # 22 # 2 # 0 # 0 # 0 # 0 # replicate 65535 0)
     = (Inr \<lparr>Header = \<lparr>Length = 22, Type = UpdateMsg\<rparr>,
             Body = UpdateBody \<lparr>WithdrawnRoutesLen = 0, WithdrawnRoutes = [],
               TotalPathAttrLen = 0, PathAttributes = [],
               NLRIs = replicate 65535 \<lparr>IP = [0, 0, 0, 0], Pfxlen = 0\<rparr>\<rparr>\<rparr>, [])
   \<and> nlriLen_of 7 203 0 = 65336
   \<and> fst (decodeUpdateMsg [0, 0, 0, 203, 64, 6, 200] 7) = Inl OtherError"
proof -
  have B: "nlriLen_of 3 0 0 = 65535" "nlriLen_of 7 203 0 = 65336" by (simp_all add: nlriLen_of_def)
  have k: "unat (nlriLen_of 3 0 0) = 65535" by (simp add: B)
  have pos: "(0 :: nat) < 65535" by simp
  have v: "be16 0 22 = 22" by (simp add: be16_def)
  have k': "unat (nlriLen_of (be16 0 22 - 19) 0 0) = 65535" by (simp add: v B)
  have l: "19 \<le> be16 0 22" "be16 0 22 \<le> 4096" by (simp_all add: v)
  note u = decodeUpdateMsg_zeros [OF k pos]
  note d = Decode_update_zeros [OF l k' pos, unfolded v]
  have f: "fst (decodeUpdateMsg [0, 0, 0, 203, 64, 6, 200] 7) = Inl OtherError"
    by code_simp
  have a: "unat (3 :: uint16) < unat (0 :: uint16) + unat (0 :: uint16) + 4" by simp
  from a B(1) u d B(2) f show ?thesis by (intro conjI)
qed

section \<open>Properties of the state machine\<close>

subsection \<open>ManualStop in Active\<close>

text \<open>
  Claim C8 says that ManualStop takes the machine from Active to Idle.  In the source the
  arm disconnects, zeroes the connect-retry counter and stops the connect-retry timer, and
  then calls \<open>changeState(Active, "Manual stop event")\<close>: the machine stays in Active.  The
  same event in Connect goes to Idle.
\<close>

theorem active_ManualStop_returns_Active:
  "snd (active_step fsm (WEvent ManualStop) wr_ok) = Return Active
   \<and> state (fst (active_step fsm (WEvent ManualStop) wr_ok)) = Active
   \<and> connectRetryCounter (fst (active_step fsm (WEvent ManualStop) wr_ok)) = 0
   \<and> con (fst (active_step fsm (WEvent ManualStop) wr_ok)) = None
   \<and> con2 (fst (active_step fsm (WEvent ManualStop) wr_ok)) = None
   \<and> last (trace (fst (active_step fsm (WEvent ManualStop) wr_ok))) = StopTimer ConnectRetryTimer
   \<and> snd (connect_step fsm (WEvent ManualStop) wr_ok) = Return Idle"
  by (simp add: active_step_def connect_step_def changeState_def stopTimer_def emit_def
      disconnect_def Let_def split: option.split)

subsection \<open>A message that fails to decode in Established\<close>

text \<open>Every error that \<open>Decode\<close> returns went through \<open>fmt.Errorf\<close>: none is a \<open>BGPError\<close>.\<close>

lemma Errorf_not_BGPError: "Errorf e \<noteq> BGPError code sub"
  by (simp add: Errorf_def)

lemma Decode_never_BGPError: "fst (Decode buf) \<noteq> Inl (BGPError code sub)"
  by (auto simp: Decode_def Errorf_not_BGPError split: prod.splits sum.splits)

lemma sendNotification_ignores_codes:
  "sendNotification (Some k) code sub fsm
     = emit (WriteNotification k \<lparr>ErrorCode = 0, ErrorSubcode = 0\<rparr>) fsm"
  by (simp add: sendNotification_def)

text \<open>
  Claim C2 says that a decode failure with a BGP error (code, subcode) in Established makes
  the machine send a NOTIFICATION with that code and subcode before it closes the
  connection, counts the retry and goes to Idle.  Take a KEEPALIVE whose last marker byte
  is 2: the header decoder fails with MessageHeaderError/ConnectionNotSync, \<open>Decode\<close>
  wraps that error, the type switch \<open>case packet.BGPError\<close> does not match, and the machine
  stops the timer, closes the connection, counts the retry and goes to Idle without
  writing anything.  An OPEN of version 3 ends in a panic instead of
  OpenMessageError/UnsupportedVersionNumber.  And where \<open>sendNotification\<close> is called, it
  writes a notification with code 0 and subcode 0 whatever codes it is given.
\<close>

theorem established_decode_failure_no_notification:
  "fst (decodeHeader (replicate 15 255 @ [2, 0, 19, 4]))
     = Inl (BGPError MessageHeaderError ConnectionNotSync)
   \<and> established_step Remove (fsm\<lparr>con := Some c\<rparr>) (EMsgRecv (replicate 15 255 @ [2, 0, 19, 4]) c) wr_ok
     = (fsm\<lparr>con := Some c, state := Idle, lastState := state fsm,
             connectRetryCounter := connectRetryCounter fsm + 1,
             trace := trace fsm @ [StopTimer ConnectRetryTimer, Close c]\<rparr>, Return Idle)
   \<and> snd (established_step Remove fsm
         (EMsgRecv (replicate 16 255 @ [0, 29, 1, 3, 1, 1, 0, 15, 10, 10, 10, 11, 0]) c) wr_ok)
     = Panicked
   \<and> trace (sendNotification (Some c) MessageHeaderError ConnectionNotSync fsm)
     = trace fsm @ [WriteNotification c \<lparr>ErrorCode = 0, ErrorSubcode = 0\<rparr>]"
proof -
  have h: "decodeHeader (replicate 15 255 @ [2, 0, 19, 4])
      = (Inl (BGPError MessageHeaderError ConnectionNotSync), [0, 19, 4])"
    by code_simp
  have d: "fst (Decode (replicate 15 255 @ [2, 0, 19, 4])) = Inl OtherError"
    by (simp add: Decode_def h Errorf_def)
  have p: "fst (Decode (replicate 16 255 @ [0, 29, 1, 3, 1, 1, 0, 15, 10, 10, 10, 11, 0]))
      = Inl Panic"
    by code_simp
  show ?thesis
    by (simp add: h established_step_def established_msgRecv_def d p fail_to_idle_def
        changeState_def stopTimer_def close_con_def emit_def sendNotification_def Let_def)
qed


end
